theory Spec2Isabelle
  imports Main
begin

section \<open>Paths: the parts of Go's path/filepath used by the extractor (Unix)\<close>

text \<open>
  The extractor calls \<open>filepath.Base\<close> and \<open>filepath.Join\<close> of the Go standard
  library. They are modelled here for the Unix separator, following the library's
  documented rules. A path is a \<open>string\<close> (a list of bytes).
\<close>

definition Separator :: char where
  "Separator = CHR ''/''"

text \<open>\<open>strings.Split(p, "/")\<close>: the pieces between separators, empty pieces included.\<close>

fun split_path :: "string \<Rightarrow> string list" where
  "split_path [] = [[]]"
| "split_path (c # cs) =
     (if c = Separator then [] # split_path cs
      else (case split_path cs of
              [] \<Rightarrow> [[c]]
            | w # ws \<Rightarrow> (c # w) # ws))"

text \<open>
  \<open>filepath.Base\<close>: the last element of the path. Trailing separators are removed
  first; the empty path gives \<open>.\<close>, a path of separators only gives \<open>/\<close>.
\<close>

definition strip_trailing :: "string \<Rightarrow> string" where
  "strip_trailing p = rev (dropWhile (\<lambda>c. c = Separator) (rev p))"

definition Base :: "string \<Rightarrow> string" where
  "Base path =
     (if path = [] then ''.''
      else let p = strip_trailing path;
               e = rev (takeWhile (\<lambda>c. c \<noteq> Separator) (rev p))
           in if e = [] then [Separator] else e)"

text \<open>
  \<open>filepath.Clean\<close>, on path elements: empty elements and \<open>.\<close> are dropped; \<open>..\<close>
  removes the element before it when there is one that is not itself \<open>..\<close>, is dropped at
  the root of a rooted path, and is kept otherwise. The stack holds the elements kept so
  far, last one first.
\<close>

definition clean_step :: "bool \<Rightarrow> string list \<Rightarrow> string \<Rightarrow> string list" where
  "clean_step rooted st e =
     (if e = [] \<or> e = ''.'' then st
      else if e = ''..'' then
        (case st of
           [] \<Rightarrow> (if rooted then [] else [e])
         | t # ts \<Rightarrow> (if t = ''..'' then e # st else ts))
      else e # st)"

definition clean_elems :: "bool \<Rightarrow> string list \<Rightarrow> string list" where
  "clean_elems rooted es = rev (foldl (clean_step rooted) [] es)"

fun join_sep :: "string list \<Rightarrow> string" where
  "join_sep [] = []"
| "join_sep [e] = e"
| "join_sep (e # es) = e @ Separator # join_sep es"

definition is_rooted :: "string \<Rightarrow> bool" where
  "is_rooted p = (case p of [] \<Rightarrow> False | c # _ \<Rightarrow> c = Separator)"

definition render :: "bool \<Rightarrow> string list \<Rightarrow> string" where
  "render rooted es =
     (if rooted then Separator # join_sep es
      else if es = [] then ''.'' else join_sep es)"

definition Clean :: "string \<Rightarrow> string" where
  "Clean path = render (is_rooted path) (clean_elems (is_rooted path) (split_path path))"

text \<open>
  \<open>filepath.Join(dir, name)\<close>: empty arguments are ignored, the rest are joined with
  the separator and the result is cleaned; with nothing left the result is empty.
\<close>

definition Join :: "string \<Rightarrow> string \<Rightarrow> string" where
  "Join a b =
     (if a \<noteq> [] then Clean (a @ Separator # b)
      else if b \<noteq> [] then Clean b
      else [])"

section \<open>JSON: the scanner, Indent and Compact of Go's encoding/json\<close>

text \<open>
  \<open>writeJSONFile\<close> pretty-prints with \<open>json.Indent\<close>. The library's scanner is a state
  machine fed one byte at a time; \<open>Indent\<close> and \<open>Compact\<close> are loops over the input
  that consult it. The model keeps the library's state names and result codes. The byte
  offset that a syntax error carries is left out.
\<close>

datatype scan_code =
    ScanContinue | ScanBeginLiteral | ScanBeginObject | ScanObjectKey | ScanObjectValue
  | ScanEndObject | ScanBeginArray | ScanArrayValue | ScanEndArray | ScanSkipSpace
  | ScanEnd | ScanError

datatype parse_state = ParseObjectKey | ParseObjectValue | ParseArrayValue

datatype step_state =
    StateBeginValueOrEmpty | StateBeginValue | StateBeginStringOrEmpty | StateBeginString
  | StateEndValue | StateEndTop
  | StateInString | StateInStringEsc | StateInStringEscU | StateInStringEscU1
  | StateInStringEscU12 | StateInStringEscU123
  | StateNeg | State1 | State0 | StateDot | StateDot0 | StateE | StateESign | StateE0
  | StateT | StateTr | StateTru | StateF | StateFa | StateFal | StateFals
  | StateN | StateNu | StateNul | StateError

datatype syntax_error =
    InvalidCharacter char string
  | UnexpectedEnd
  | IndexOutOfRange

text \<open>The parse stack has its top (the last element of the Go slice) at the head.\<close>

record scanner =
  step :: step_state
  parseState :: "parse_state list"
  err :: "syntax_error option"
  endTop :: bool

definition maxNestingDepth :: nat where
  "maxNestingDepth = 10000"

definition newScanner :: scanner where
  "newScanner = \<lparr>step = StateBeginValue, parseState = [], err = None, endTop = False\<rparr>"

definition isSpace :: "char \<Rightarrow> bool" where
  "isSpace c = (c = CHR '' '' \<or> c = CHR 0x09 \<or> c = CHR 0x0D \<or> c = CHR 0x0A)"

definition isDigit :: "char \<Rightarrow> bool" where
  "isDigit c = (48 \<le> (of_char c :: nat) \<and> (of_char c :: nat) \<le> 57)"

definition isDigit19 :: "char \<Rightarrow> bool" where
  "isDigit19 c = (49 \<le> (of_char c :: nat) \<and> (of_char c :: nat) \<le> 57)"

definition isHex :: "char \<Rightarrow> bool" where
  "isHex c = (isDigit c
     \<or> (97 \<le> (of_char c :: nat) \<and> (of_char c :: nat) \<le> 102)
     \<or> (65 \<le> (of_char c :: nat) \<and> (of_char c :: nat) \<le> 70))"

definition scan_error :: "scanner \<Rightarrow> char \<Rightarrow> string \<Rightarrow> scan_code \<times> scanner" where
  "scan_error s c context = (ScanError, s\<lparr>step := StateError, err := Some (InvalidCharacter c context)\<rparr>)"

text \<open>An index into an empty parse stack panics in Go; no scan from \<open>newScanner\<close> gets there.\<close>

definition scan_panic :: "scanner \<Rightarrow> scan_code \<times> scanner" where
  "scan_panic s = (ScanError, s\<lparr>step := StateError, err := Some IndexOutOfRange\<rparr>)"

definition pushParseState :: "scanner \<Rightarrow> char \<Rightarrow> parse_state \<Rightarrow> scan_code \<Rightarrow> scan_code \<times> scanner" where
  "pushParseState s c newParseState successState =
     (let s' = s\<lparr>parseState := newParseState # parseState s\<rparr>
      in if length (parseState s') \<le> maxNestingDepth then (successState, s')
         else scan_error s' c ''exceeded max depth'')"

definition popParseState :: "scanner \<Rightarrow> scanner" where
  "popParseState s =
     (let ps = tl (parseState s)
      in if ps = [] then s\<lparr>parseState := ps, step := StateEndTop, endTop := True\<rparr>
         else s\<lparr>parseState := ps, step := StateEndValue\<rparr>)"

definition stateEndTop :: "scanner \<Rightarrow> char \<Rightarrow> scan_code \<times> scanner" where
  "stateEndTop s c =
     (if \<not> isSpace c then (ScanEnd, snd (scan_error s c ''after top-level value''))
      else (ScanEnd, s))"

definition stateEndValue :: "scanner \<Rightarrow> char \<Rightarrow> scan_code \<times> scanner" where
  "stateEndValue s c =
     (case parseState s of
        [] \<Rightarrow> stateEndTop (s\<lparr>step := StateEndTop, endTop := True\<rparr>) c
      | ps # rest \<Rightarrow>
          if isSpace c then (ScanSkipSpace, s\<lparr>step := StateEndValue\<rparr>)
          else (case ps of
              ParseObjectKey \<Rightarrow>
                if c = CHR '':'' then
                  (ScanObjectKey, s\<lparr>parseState := ParseObjectValue # rest, step := StateBeginValue\<rparr>)
                else scan_error s c ''after object key''
            | ParseObjectValue \<Rightarrow>
                if c = CHR '','' then
                  (ScanObjectValue, s\<lparr>parseState := ParseObjectKey # rest, step := StateBeginString\<rparr>)
                else if c = CHR ''}'' then (ScanEndObject, popParseState s)
                else scan_error s c ''after object key:value pair''
            | ParseArrayValue \<Rightarrow>
                if c = CHR '','' then (ScanArrayValue, s\<lparr>step := StateBeginValue\<rparr>)
                else if c = CHR '']'' then (ScanEndArray, popParseState s)
                else scan_error s c ''after array element''))"

definition stateBeginValue :: "scanner \<Rightarrow> char \<Rightarrow> scan_code \<times> scanner" where
  "stateBeginValue s c =
     (if isSpace c then (ScanSkipSpace, s)
      else if c = CHR ''{'' then
        pushParseState (s\<lparr>step := StateBeginStringOrEmpty\<rparr>) c ParseObjectKey ScanBeginObject
      else if c = CHR ''['' then
        pushParseState (s\<lparr>step := StateBeginValueOrEmpty\<rparr>) c ParseArrayValue ScanBeginArray
      else if c = CHR 0x22 then (ScanBeginLiteral, s\<lparr>step := StateInString\<rparr>)
      else if c = CHR ''-'' then (ScanBeginLiteral, s\<lparr>step := StateNeg\<rparr>)
      else if c = CHR ''0'' then (ScanBeginLiteral, s\<lparr>step := State0\<rparr>)
      else if c = CHR ''t'' then (ScanBeginLiteral, s\<lparr>step := StateT\<rparr>)
      else if c = CHR ''f'' then (ScanBeginLiteral, s\<lparr>step := StateF\<rparr>)
      else if c = CHR ''n'' then (ScanBeginLiteral, s\<lparr>step := StateN\<rparr>)
      else if isDigit19 c then (ScanBeginLiteral, s\<lparr>step := State1\<rparr>)
      else scan_error s c ''looking for beginning of value'')"

definition stateBeginValueOrEmpty :: "scanner \<Rightarrow> char \<Rightarrow> scan_code \<times> scanner" where
  "stateBeginValueOrEmpty s c =
     (if isSpace c then (ScanSkipSpace, s)
      else if c = CHR '']'' then stateEndValue s c
      else stateBeginValue s c)"

definition stateBeginString :: "scanner \<Rightarrow> char \<Rightarrow> scan_code \<times> scanner" where
  "stateBeginString s c =
     (if isSpace c then (ScanSkipSpace, s)
      else if c = CHR 0x22 then (ScanBeginLiteral, s\<lparr>step := StateInString\<rparr>)
      else scan_error s c ''looking for beginning of object key string'')"

definition stateBeginStringOrEmpty :: "scanner \<Rightarrow> char \<Rightarrow> scan_code \<times> scanner" where
  "stateBeginStringOrEmpty s c =
     (if isSpace c then (ScanSkipSpace, s)
      else if c = CHR ''}'' then
        (case parseState s of
           [] \<Rightarrow> scan_panic s
         | _ # rest \<Rightarrow> stateEndValue (s\<lparr>parseState := ParseObjectValue # rest\<rparr>) c)
      else stateBeginString s c)"

definition stateInString :: "scanner \<Rightarrow> char \<Rightarrow> scan_code \<times> scanner" where
  "stateInString s c =
     (if c = CHR 0x22 then (ScanContinue, s\<lparr>step := StateEndValue\<rparr>)
      else if c = CHR 0x5C then (ScanContinue, s\<lparr>step := StateInStringEsc\<rparr>)
      else if (of_char c :: nat) < 32 then scan_error s c ''in string literal''
      else (ScanContinue, s))"

definition stateInStringEsc :: "scanner \<Rightarrow> char \<Rightarrow> scan_code \<times> scanner" where
  "stateInStringEsc s c =
     (if c \<in> set [CHR ''b'', CHR ''f'', CHR ''n'', CHR ''r'', CHR ''t'', CHR 0x5C, CHR ''/'', CHR 0x22]
      then (ScanContinue, s\<lparr>step := StateInString\<rparr>)
      else if c = CHR ''u'' then (ScanContinue, s\<lparr>step := StateInStringEscU\<rparr>)
      else scan_error s c ''in string escape code'')"

definition stateHex :: "step_state \<Rightarrow> scanner \<Rightarrow> char \<Rightarrow> scan_code \<times> scanner" where
  "stateHex next s c =
     (if isHex c then (ScanContinue, s\<lparr>step := next\<rparr>)
      else scan_error s c (''in '' @ [CHR 0x5C] @ ''u hexadecimal character escape''))"

definition state0 :: "scanner \<Rightarrow> char \<Rightarrow> scan_code \<times> scanner" where
  "state0 s c =
     (if c = CHR ''.'' then (ScanContinue, s\<lparr>step := StateDot\<rparr>)
      else if c = CHR ''e'' \<or> c = CHR ''E'' then (ScanContinue, s\<lparr>step := StateE\<rparr>)
      else stateEndValue s c)"

definition state1 :: "scanner \<Rightarrow> char \<Rightarrow> scan_code \<times> scanner" where
  "state1 s c =
     (if isDigit c then (ScanContinue, s\<lparr>step := State1\<rparr>)
      else state0 s c)"

definition stateNeg :: "scanner \<Rightarrow> char \<Rightarrow> scan_code \<times> scanner" where
  "stateNeg s c =
     (if c = CHR ''0'' then (ScanContinue, s\<lparr>step := State0\<rparr>)
      else if isDigit19 c then (ScanContinue, s\<lparr>step := State1\<rparr>)
      else scan_error s c ''in numeric literal'')"

definition stateDot :: "scanner \<Rightarrow> char \<Rightarrow> scan_code \<times> scanner" where
  "stateDot s c =
     (if isDigit c then (ScanContinue, s\<lparr>step := StateDot0\<rparr>)
      else scan_error s c ''after decimal point in numeric literal'')"

definition stateDot0 :: "scanner \<Rightarrow> char \<Rightarrow> scan_code \<times> scanner" where
  "stateDot0 s c =
     (if isDigit c then (ScanContinue, s)
      else if c = CHR ''e'' \<or> c = CHR ''E'' then (ScanContinue, s\<lparr>step := StateE\<rparr>)
      else stateEndValue s c)"

definition stateESign :: "scanner \<Rightarrow> char \<Rightarrow> scan_code \<times> scanner" where
  "stateESign s c =
     (if isDigit c then (ScanContinue, s\<lparr>step := StateE0\<rparr>)
      else scan_error s c ''in exponent of numeric literal'')"

definition stateE :: "scanner \<Rightarrow> char \<Rightarrow> scan_code \<times> scanner" where
  "stateE s c =
     (if c = CHR ''+'' \<or> c = CHR ''-'' then (ScanContinue, s\<lparr>step := StateESign\<rparr>)
      else stateESign s c)"

definition stateE0 :: "scanner \<Rightarrow> char \<Rightarrow> scan_code \<times> scanner" where
  "stateE0 s c =
     (if isDigit c then (ScanContinue, s)
      else stateEndValue s c)"

definition expecting_ctx :: "string \<Rightarrow> char \<Rightarrow> string" where
  "expecting_ctx lit c = ''in literal '' @ lit @ '' (expecting '' @ [CHR 0x27, c, CHR 0x27] @ '')''"

text \<open>The literals \<open>true\<close>, \<open>false\<close> and \<open>null\<close>: one state per letter already read.\<close>

definition stateLetter :: "char \<Rightarrow> step_state \<Rightarrow> string \<Rightarrow> scanner \<Rightarrow> char \<Rightarrow> scan_code \<times> scanner" where
  "stateLetter expected next context s c =
     (if c = expected then (ScanContinue, s\<lparr>step := next\<rparr>)
      else scan_error s c context)"

definition scan_step :: "scanner \<Rightarrow> char \<Rightarrow> scan_code \<times> scanner" where
  "scan_step s c =
     (case step s of
        StateBeginValueOrEmpty \<Rightarrow> stateBeginValueOrEmpty s c
      | StateBeginValue \<Rightarrow> stateBeginValue s c
      | StateBeginStringOrEmpty \<Rightarrow> stateBeginStringOrEmpty s c
      | StateBeginString \<Rightarrow> stateBeginString s c
      | StateEndValue \<Rightarrow> stateEndValue s c
      | StateEndTop \<Rightarrow> stateEndTop s c
      | StateInString \<Rightarrow> stateInString s c
      | StateInStringEsc \<Rightarrow> stateInStringEsc s c
      | StateInStringEscU \<Rightarrow> stateHex StateInStringEscU1 s c
      | StateInStringEscU1 \<Rightarrow> stateHex StateInStringEscU12 s c
      | StateInStringEscU12 \<Rightarrow> stateHex StateInStringEscU123 s c
      | StateInStringEscU123 \<Rightarrow> stateHex StateInString s c
      | StateNeg \<Rightarrow> stateNeg s c
      | State1 \<Rightarrow> state1 s c
      | State0 \<Rightarrow> state0 s c
      | StateDot \<Rightarrow> stateDot s c
      | StateDot0 \<Rightarrow> stateDot0 s c
      | StateE \<Rightarrow> stateE s c
      | StateESign \<Rightarrow> stateESign s c
      | StateE0 \<Rightarrow> stateE0 s c
      | StateT \<Rightarrow> stateLetter CHR ''r'' StateTr (expecting_ctx ''true'' CHR ''r'') s c
      | StateTr \<Rightarrow> stateLetter CHR ''u'' StateTru (expecting_ctx ''true'' CHR ''u'') s c
      | StateTru \<Rightarrow> stateLetter CHR ''e'' StateEndValue (expecting_ctx ''true'' CHR ''e'') s c
      | StateF \<Rightarrow> stateLetter CHR ''a'' StateFa (expecting_ctx ''false'' CHR ''a'') s c
      | StateFa \<Rightarrow> stateLetter CHR ''l'' StateFal (expecting_ctx ''false'' CHR ''l'') s c
      | StateFal \<Rightarrow> stateLetter CHR ''s'' StateFals (expecting_ctx ''false'' CHR ''s'') s c
      | StateFals \<Rightarrow> stateLetter CHR ''e'' StateEndValue (expecting_ctx ''false'' CHR ''e'') s c
      | StateN \<Rightarrow> stateLetter CHR ''u'' StateNu (expecting_ctx ''null'' CHR ''u'') s c
      | StateNu \<Rightarrow> stateLetter CHR ''l'' StateNul (expecting_ctx ''null'' CHR ''l'') s c
      | StateNul \<Rightarrow> stateLetter CHR ''l'' StateEndValue (expecting_ctx ''null'' CHR ''l'') s c
      | StateError \<Rightarrow> (ScanError, s))"

text \<open>
  \<open>scanner.eof\<close>: the input has ended. A pending number is closed by feeding one space.
  The result is the error, if any.
\<close>

definition scan_eof :: "scanner \<Rightarrow> syntax_error option" where
  "scan_eof s =
     (if err s \<noteq> None then err s
      else if endTop s then None
      else let s' = snd (scan_step s CHR '' '')
           in if endTop s' then None
              else if err s' = None then Some UnexpectedEnd else err s')"

text \<open>
  \<open>json.Indent\<close>: every byte goes through the scanner. Skipped space is dropped, an error
  stops the loop, and punctuation outside strings gets a newline and indentation around
  it. The state of the loop is the pending indent, the depth and the output so far.
\<close>

definition appendNewline :: "string \<Rightarrow> string \<Rightarrow> string \<Rightarrow> int \<Rightarrow> string" where
  "appendNewline dst prefix indent depth =
     dst @ [CHR 0x0A] @ prefix @ concat (replicate (nat depth) indent)"

type_synonym indent_state = "bool \<times> int \<times> string"

definition indent_byte :: "string \<Rightarrow> string \<Rightarrow> indent_state \<Rightarrow> scan_code \<Rightarrow> char \<Rightarrow> indent_state" where
  "indent_byte prefix indent st v c =
     (case st of (needIndent0, depth0, dst0) \<Rightarrow>
      let (needIndent, depth, dst) =
            (if needIndent0 \<and> v \<noteq> ScanEndObject \<and> v \<noteq> ScanEndArray
             then (False, depth0 + 1, appendNewline dst0 prefix indent (depth0 + 1))
             else (needIndent0, depth0, dst0))
      in if v = ScanContinue then (needIndent, depth, dst @ [c])
         else if c = CHR ''{'' \<or> c = CHR ''['' then (True, depth, dst @ [c])
         else if c = CHR '','' then (needIndent, depth, appendNewline (dst @ [c]) prefix indent depth)
         else if c = CHR '':'' then (needIndent, depth, dst @ [c, CHR '' ''])
         else if c = CHR ''}'' \<or> c = CHR '']'' then
           (if needIndent then (False, depth, dst @ [c])
            else (needIndent, depth - 1, appendNewline dst prefix indent (depth - 1) @ [c]))
         else (needIndent, depth, dst @ [c]))"

fun indent_loop :: "string \<Rightarrow> string \<Rightarrow> scanner \<Rightarrow> indent_state \<Rightarrow> string \<Rightarrow> scanner \<times> indent_state" where
  "indent_loop prefix indent scan st [] = (scan, st)"
| "indent_loop prefix indent scan st (c # cs) =
     (case scan_step scan c of (v, scan') \<Rightarrow>
        if v = ScanSkipSpace then indent_loop prefix indent scan' st cs
        else if v = ScanError then (scan', st)
        else indent_loop prefix indent scan' (indent_byte prefix indent st v c) cs)"

definition Indent :: "string \<Rightarrow> string \<Rightarrow> string \<Rightarrow> syntax_error + string" where
  "Indent src prefix indent =
     (case indent_loop prefix indent newScanner (False, 0, []) src of
        (scan, (needIndent, depth, dst)) \<Rightarrow>
          (case scan_eof scan of Some e \<Rightarrow> Inl e | None \<Rightarrow> Inr dst))"

text \<open>
  \<open>json.Compact\<close> (without HTML escaping): the bytes the scanner reports as skipped
  space, or as following the end of the top-level value, are dropped; an error stops the
  loop.
\<close>

fun compact_loop :: "scanner \<Rightarrow> string \<Rightarrow> string \<Rightarrow> scanner \<times> string" where
  "compact_loop scan dst [] = (scan, dst)"
| "compact_loop scan dst (c # cs) =
     (case scan_step scan c of (v, scan') \<Rightarrow>
        if v = ScanError then (scan', dst)
        else if v = ScanSkipSpace \<or> v = ScanEnd then compact_loop scan' dst cs
        else compact_loop scan' (dst @ [c]) cs)"

definition Compact :: "string \<Rightarrow> syntax_error + string" where
  "Compact src =
     (case compact_loop newScanner [] src of
        (scan, dst) \<Rightarrow> (case scan_eof scan of Some e \<Rightarrow> Inl e | None \<Rightarrow> Inr dst))"

section \<open>The extractor: cmd/openapi-extractor/main.go\<close>

subsection \<open>Errors, the outside world and its answers\<close>

text \<open>
  An error is a value. \<open>Errorf prefix e\<close> is \<open>fmt.Errorf(prefix + ": %w", e)\<close>;
  \<open>External\<close> is an error handed back by a collaborator (HTTP client, operating system,
  process supervisor); \<open>DeadlineExceeded\<close> and \<open>Canceled\<close> are the two errors of a
  \<open>context.Context\<close>.
\<close>

datatype error =
    SyntaxError syntax_error
  | External string
  | DeadlineExceeded
  | Canceled
  | Errorf string error

record APIService =
  Group :: string
  Version :: string

type_synonym GroupVersion = "string \<times> string"

text \<open>
  What the run does to the outside is recorded in order: requests, file operations,
  starts and stops of processes, and the log entries that carry an error or the state
  of the poll (the other \<open>log.Info\<close> lines are left out). The file system is a map
  from (cleaned) path to content.
\<close>

datatype io_event =
    HttpGet string
  | MkdirAll string
  | WriteFile string string
  | StartTestEnv
  | StopTestEnv
  | StartAPIServer
  | StopAPIServer
  | WaitAPIServicesReady
  | HeadRound "GroupVersion set"
  | LogAllAvailable
  | LogUnavailable "GroupVersion set"
  | LogError string error

record world =
  files :: "string \<rightharpoonup> string"
  trace :: "io_event list"

text \<open>
  \<open>os.WriteFile\<close> creates or truncates the file and then writes. It can fail before the
  file is opened, which leaves the file system as it was, or after, which leaves a
  prefix of the data in the file.
\<close>

datatype write_outcome =
    Written
  | NotOpened error
  | Partial error nat

text \<open>
  The answers of the collaborators are parameters. Those of the HTTP server and the
  operating system may depend on everything that happened before. The probes of one
  poll round are answered from the history at the start of the round, since the order
  of the probes inside a round (Go's map iteration) is not fixed. \<open>ctx_obs\<close> is what
  the poll loop sees of its context each time it wakes up for another round: \<open>None\<close>
  while the context is live, \<open>Some e\<close> once it is done with error \<open>e\<close>; where the list
  ends the deadline has passed. The remaining fields are the results of the process
  supervisors and client constructors, the services the registrar installed and the
  \<open>--output\<close> flag.
\<close>

record env =
  http_get :: "io_event list \<Rightarrow> string \<Rightarrow> error + string"
  http_head :: "io_event list \<Rightarrow> string \<Rightarrow> error option"
  os_mkdir_all :: "io_event list \<Rightarrow> string \<Rightarrow> error option"
  os_write_file :: "io_event list \<Rightarrow> string \<Rightarrow> string \<Rightarrow> write_outcome"
  ctx_obs :: "error option list"
  start_testenv :: "error option"
  stop_testenv :: "error option"
  client_new :: "error option"
  apiserver_new :: "error option"
  apiserver_start :: "error option"
  apiserver_stop :: "error option"
  wait_ready :: "error option"
  clientset_new :: "error option"
  APIServices :: "APIService list"
  opt_outputDir :: string

definition emit :: "io_event \<Rightarrow> world \<Rightarrow> world" where
  "emit e w = w\<lparr>trace := trace w @ [e]\<rparr>"

subsection \<open>getPath and writeJSONFile\<close>

definition getPath :: "env \<Rightarrow> world \<Rightarrow> string \<Rightarrow> (error + string) \<times> world" where
  "getPath en w path =
     (case http_get en (trace w) path of
        Inl e \<Rightarrow> (Inl (Errorf (''failed to get path '' @ path) e), emit (HttpGet path) w)
      | Inr resp \<Rightarrow> (Inr resp, emit (HttpGet path) w))"

text \<open>
  \<open>os.MkdirAll\<close> fails on the empty path, whatever the file system holds; on any other
  path the outcome is the operating system's.
\<close>

definition os_MkdirAll :: "env \<Rightarrow> io_event list \<Rightarrow> string \<Rightarrow> error option" where
  "os_MkdirAll en t path =
     (if path = [] then Some (External ''mkdir : no such file or directory'')
      else os_mkdir_all en t path)"

definition writeJSONFile :: "env \<Rightarrow> world \<Rightarrow> string \<Rightarrow> string \<Rightarrow> string \<Rightarrow> error option \<times> world" where
  "writeJSONFile en w dir name jsonData =
     (let w1 = emit (MkdirAll dir) w in
      case os_MkdirAll en (trace w) dir of
        Some e \<Rightarrow> (Some (Errorf (''failed to create output directory '' @ dir) e), w1)
      | None \<Rightarrow>
          (case Indent jsonData [] [CHR 0x09] of
             Inl e \<Rightarrow> (Some (Errorf ''failed to pretty print JSON'' (SyntaxError e)), w1)
           | Inr out \<Rightarrow>
               let filename = Join dir (Base name);
                   w2 = emit (WriteFile filename out) w1
               in (case os_write_file en (trace w1) filename out of
                     Written \<Rightarrow> (None, w2\<lparr>files := (files w2)(filename \<mapsto> out)\<rparr>)
                   | NotOpened e \<Rightarrow> (Some (Errorf (''error writing file '' @ filename) e), w2)
                   | Partial e n \<Rightarrow>
                       (Some (Errorf (''error writing file '' @ filename) e),
                        w2\<lparr>files := (files w2)(filename \<mapsto> take n out)\<rparr>))))"

subsection \<open>extractOpenAPIv2 and extractOpenAPIv3\<close>

definition v3_fileName :: "APIService \<Rightarrow> string" where
  "v3_fileName apiService = ''apis__'' @ Group apiService @ ''__'' @ Version apiService @ ''_openapi.json''"

definition v3_path :: "string \<Rightarrow> string \<Rightarrow> string" where
  "v3_path g v = ''/openapi/v3/apis/'' @ g @ ''/'' @ v"

definition v3_dir :: "string \<Rightarrow> string" where
  "v3_dir outputDir = outputDir @ ''/'' @ ''v3''"

fun extractOpenAPIv3 :: "env \<Rightarrow> world \<Rightarrow> APIService list \<Rightarrow> string \<Rightarrow> error option \<times> world" where
  "extractOpenAPIv3 en w [] outputDir = (None, w)"
| "extractOpenAPIv3 en w (apiService # apiServices) outputDir =
     (let fileName = v3_fileName apiService;
          path = v3_path (Group apiService) (Version apiService)
      in case getPath en w path of
           (Inl e, w1) \<Rightarrow> (Some (Errorf (''failed to get OpenAPI v3 path '' @ path) e), w1)
         | (Inr resp, w1) \<Rightarrow>
             (case writeJSONFile en w1 (v3_dir outputDir) fileName resp of
                (Some e, w2) \<Rightarrow> (Some (Errorf ''failed to write OpenAPI v3 file'' e), w2)
              | (None, w2) \<Rightarrow> extractOpenAPIv3 en w2 apiServices outputDir))"

definition extractOpenAPIv2 :: "env \<Rightarrow> world \<Rightarrow> string \<Rightarrow> error option \<times> world" where
  "extractOpenAPIv2 en w outputDir =
     (let path = ''/openapi/v2''
      in case getPath en w path of
           (Inl e, w1) \<Rightarrow> (Some (Errorf (''failed to get OpenAPI v3 path '' @ path) e), w1)
         | (Inr resp, w1) \<Rightarrow>
             (case writeJSONFile en w1 outputDir ''swagger.json'' resp of
                (Some e, w2) \<Rightarrow> (Some (Errorf ''failed to write OpenAPI v2 file'' e), w2)
              | (None, w2) \<Rightarrow> (None, w2)))"

subsection \<open>waitForAPIServicesOpenAPIV3\<close>

text \<open>
  \<open>wait.PollUntilContextTimeout(ctx, interval, timeout, immediate = true, condition)\<close> of
  k8s.io/apimachinery: the condition runs once at once; after that the loop waits for
  the timer or the end of the context, returns the context's error if it is done, and
  runs the condition again otherwise. The condition of the extractor never returns an
  error, so a condition is modelled as returning \<open>done\<close> and the new state.
\<close>

fun loopConditionUntilContext :: "('s \<Rightarrow> bool \<times> 's) \<Rightarrow> 's \<Rightarrow> error option list \<Rightarrow> error option \<times> 's" where
  "loopConditionUntilContext condition st [] = (Some DeadlineExceeded, st)"
| "loopConditionUntilContext condition st (Some e # obs) = (Some e, st)"
| "loopConditionUntilContext condition st (None # obs) =
     (case condition st of
        (True, st') \<Rightarrow> (None, st')
      | (False, st') \<Rightarrow> loopConditionUntilContext condition st' obs)"

definition PollUntilContextTimeout :: "('s \<Rightarrow> bool \<times> 's) \<Rightarrow> 's \<Rightarrow> error option list \<Rightarrow> error option \<times> 's" where
  "PollUntilContextTimeout condition st obs =
     (case condition st of
        (True, st') \<Rightarrow> (None, st')
      | (False, st') \<Rightarrow> loopConditionUntilContext condition st' obs)"

text \<open>
  One round: the closure passed to the poll. It ranges over all of \<open>testGVs\<close>, collects
  in \<open>newTestGVs\<close> those whose HEAD request failed, and replaces \<open>testGVs\<close> by them
  unless none is left. \<open>HeadRound S\<close> stands for one HEAD request to each member of
  \<open>S\<close>. The log entry of a round that leaves some group-versions unavailable lists them
  sorted (\<open>sortedGroupVersions\<close>); the model records the set.
\<close>

definition poll_round :: "env \<Rightarrow> GroupVersion set \<times> world \<Rightarrow> bool \<times> GroupVersion set \<times> world" where
  "poll_round en st =
     (case st of (testGVs, w) \<Rightarrow>
      let newTestGVs = Set.filter (\<lambda>(g, v). http_head en (trace w) (v3_path g v) \<noteq> None) testGVs;
          w1 = emit (HeadRound testGVs) w
      in if newTestGVs = {} then (True, testGVs, emit LogAllAvailable w1)
         else (False, newTestGVs, emit (LogUnavailable newTestGVs) w1))"

definition registered_set :: "APIService list \<Rightarrow> GroupVersion set" where
  "registered_set services = foldl (\<lambda>testGVs svc. insert (Group svc, Version svc) testGVs) {} services"

definition waitForAPIServicesOpenAPIV3 :: "env \<Rightarrow> world \<Rightarrow> APIService list \<Rightarrow> error option \<times> world" where
  "waitForAPIServicesOpenAPIV3 en w services =
     (case PollUntilContextTimeout (poll_round en) (registered_set services, w) (ctx_obs en) of
        (Some e, testGVs, w') \<Rightarrow>
          (Some (Errorf ''error waiting for api services to become available'' e), w')
      | (None, testGVs, w') \<Rightarrow> (None, w'))"

subsection \<open>extractOpenAPI and main\<close>

text \<open>
  The two deferred calls of \<open>extractOpenAPI\<close> run when it returns, last registered
  first. Each is registered only after its \<open>Start\<close> has succeeded, so the function is
  split at those two points: \<open>extractOpenAPI_started\<close> is the part after the
  aggregated server has started, \<open>extractOpenAPI_testenv\<close> the part after the control
  plane has. A failing stop is logged and nothing else.
\<close>

definition deferred_stop_apiserver :: "env \<Rightarrow> world \<Rightarrow> world" where
  "deferred_stop_apiserver en w =
     (case apiserver_stop en of
        Some e \<Rightarrow> emit (LogError ''failed to stop api server'' e) (emit StopAPIServer w)
      | None \<Rightarrow> emit StopAPIServer w)"

definition deferred_stop_testenv :: "env \<Rightarrow> world \<Rightarrow> world" where
  "deferred_stop_testenv en w =
     (case stop_testenv en of
        Some e \<Rightarrow> emit (LogError ''failed to stop testenv'' e) (emit StopTestEnv w)
      | None \<Rightarrow> emit StopTestEnv w)"

definition extractOpenAPI_started :: "env \<Rightarrow> world \<Rightarrow> error option \<times> world" where
  "extractOpenAPI_started en w =
     (let w1 = emit WaitAPIServicesReady w in
      case wait_ready en of
        Some e \<Rightarrow> (Some (Errorf ''failed to wait for api server to become ready'' e), w1)
      | None \<Rightarrow>
     (case clientset_new en of
        Some e \<Rightarrow> (Some (Errorf ''failed to create clientset from config'' e), w1)
      | None \<Rightarrow>
     (case waitForAPIServicesOpenAPIV3 en w1 (APIServices en) of
        (Some e, w2) \<Rightarrow> (Some (Errorf ''failed to wait for the api services to become available'' e), w2)
      | (None, w2) \<Rightarrow>
     (case extractOpenAPIv2 en w2 (opt_outputDir en) of
        (Some e, w3) \<Rightarrow> (Some (Errorf ''failed to extract OpenAPI v2 spec'' e), w3)
      | (None, w3) \<Rightarrow>
     (case extractOpenAPIv3 en w3 (APIServices en) (opt_outputDir en) of
        (Some e, w4) \<Rightarrow> (Some (Errorf ''failed to extract OpenAPI v3 spec'' e), w4)
      | (None, w4) \<Rightarrow> (None, w4))))))"

definition extractOpenAPI_testenv :: "env \<Rightarrow> world \<Rightarrow> error option \<times> world" where
  "extractOpenAPI_testenv en w =
     (case client_new en of
        Some e \<Rightarrow> (Some (Errorf ''failed to create Kubernetes client'' e), w)
      | None \<Rightarrow>
     (case apiserver_new en of
        Some e \<Rightarrow> (Some (Errorf ''failed to setup api server'' e), w)
      | None \<Rightarrow>
     (case apiserver_start en of
        Some e \<Rightarrow> (Some (Errorf ''failed to start api server'' e), emit StartAPIServer w)
      | None \<Rightarrow>
          (case extractOpenAPI_started en (emit StartAPIServer w) of
             (r, w') \<Rightarrow> (r, deferred_stop_apiserver en w')))))"

definition extractOpenAPI :: "env \<Rightarrow> world \<Rightarrow> error option \<times> world" where
  "extractOpenAPI en w =
     (case start_testenv en of
        Some e \<Rightarrow> (Some (Errorf ''failed to start testenv'' e), emit StartTestEnv w)
      | None \<Rightarrow>
          (case extractOpenAPI_testenv en (emit StartTestEnv w) of
             (r, w') \<Rightarrow> (r, deferred_stop_testenv en w')))"

text \<open>\<open>main\<close>: the exit status is 1 exactly when \<open>extractOpenAPI\<close> returned an error.\<close>

definition main :: "env \<Rightarrow> world \<Rightarrow> nat \<times> world" where
  "main en w =
     (case extractOpenAPI en w of
        (Some e, w') \<Rightarrow> (1, emit (LogError ''failed to extract OpenAPI'' e) w')
      | (None, w') \<Rightarrow> (0, w'))"

section \<open>Small environments for concrete runs\<close>

text \<open>
  \<open>quiet_env\<close> is an outside world in which every collaborator succeeds at once and
  every GET is answered with the same payload. The closed theorems below start from it
  and change one answer at a time.
\<close>

definition quiet_env :: "string \<Rightarrow> APIService list \<Rightarrow> string \<Rightarrow> env" where
  "quiet_env payload services out =
     \<lparr>http_get = (\<lambda>_ _. Inr payload),
      http_head = (\<lambda>_ _. None),
      os_mkdir_all = (\<lambda>_ _. None),
      os_write_file = (\<lambda>_ _ _. Written),
      ctx_obs = [],
      start_testenv = None,
      stop_testenv = None,
      client_new = None,
      apiserver_new = None,
      apiserver_start = None,
      apiserver_stop = None,
      wait_ready = None,
      clientset_new = None,
      APIServices = services,
      opt_outputDir = out\<rparr>"

definition empty_world :: world where
  "empty_world = \<lparr>files = Map.empty, trace = []\<rparr>"

text \<open>A path element that names a file: not empty, not \<open>.\<close> or \<open>..\<close>, without separator.\<close>

definition good_elem :: "string \<Rightarrow> bool" where
  "good_elem e = (e \<noteq> [] \<and> e \<noteq> ''.'' \<and> Separator \<notin> set e)"

definition proper_name :: "string \<Rightarrow> bool" where
  "proper_name f = (f \<noteq> [] \<and> f \<noteq> ''.'' \<and> f \<noteq> ''..'' \<and> Separator \<notin> set f)"

section \<open>Reading a trace\<close>

text \<open>
  Projections of the trace, used to state what a run did: the requests and file
  operations of the extraction, the calls that start and stop the two processes, and
  the sets probed by the poll rounds.
\<close>

fun is_io :: "io_event \<Rightarrow> bool" where
  "is_io (HttpGet p) = True"
| "is_io (MkdirAll d) = True"
| "is_io (WriteFile f d) = True"
| "is_io e = False"

definition io_events :: "io_event list \<Rightarrow> io_event list" where
  "io_events t = filter is_io t"

fun is_lifecycle :: "io_event \<Rightarrow> bool" where
  "is_lifecycle StartTestEnv = True"
| "is_lifecycle StopTestEnv = True"
| "is_lifecycle StartAPIServer = True"
| "is_lifecycle StopAPIServer = True"
| "is_lifecycle e = False"

definition lifecycle :: "io_event list \<Rightarrow> io_event list" where
  "lifecycle t = filter is_lifecycle t"

fun rounds :: "io_event list \<Rightarrow> GroupVersion set list" where
  "rounds [] = []"
| "rounds (HeadRound S # t) = S # rounds t"
| "rounds (e # t) = rounds t"

text \<open>
  The file a v3 document goes to, and the three operations extraction performs for one
  document: the request, the creation of the directory and the write.
\<close>

definition v3_dest :: "string \<Rightarrow> APIService \<Rightarrow> string" where
  "v3_dest out svc = Join (v3_dir out) (Base (v3_fileName svc))"

definition v2_dest :: "string \<Rightarrow> string" where
  "v2_dest out = Join out (Base ''swagger.json'')"

definition v3_ops :: "string \<Rightarrow> APIService \<Rightarrow> string \<Rightarrow> io_event list" where
  "v3_ops out svc pretty =
     [HttpGet (v3_path (Group svc) (Version svc)), MkdirAll (v3_dir out), WriteFile (v3_dest out svc) pretty]"


fun fetched :: "io_event list \<Rightarrow> string list" where
  "fetched [] = []"
| "fetched (HttpGet p # t) = p # fetched t"
| "fetched (e # t) = fetched t"



text \<open>
  \<open>never_ready g obs\<close>: the group \<open>g\<close> at version \<open>v1\<close> never answers its probe, every
  other group-version answers at once, and the poll loop sees the context as \<open>obs\<close>.
\<close>

definition never_ready :: "string \<Rightarrow> error option list \<Rightarrow> env" where
  "never_ready g obs = (quiet_env ''1'' [] ''out'')
     \<lparr>http_head := (\<lambda>t p. if p = v3_path g ''v1'' then Some (External ''503'') else None),
      ctx_obs := obs\<rparr>"

section \<open>Relating the scanner on the input and on the indented output\<close>

text \<open>
  Notions used to compare the scanner reading a payload with the scanner reading its
  pretty-printed form. \<open>pending\<close>: an object or array has just been opened. \<open>num_end\<close>:
  the scanner is inside a number that could end here. \<open>ws_stable\<close>: a space byte is
  skipped and leaves the scanner as it is. \<open>ahead sA sB\<close>: the two scanners agree, or
  \<open>sA\<close> is \<open>sB\<close> after a space that ended a number. \<open>ws_only\<close>: a string of JSON
  space bytes; \<open>newline_ws\<close> is what \<open>appendNewline\<close> appends.
\<close>

definition pending :: "scanner \<Rightarrow> bool" where
  "pending s = (step s = StateBeginValueOrEmpty \<or> step s = StateBeginStringOrEmpty)"

definition num_end :: "scanner \<Rightarrow> bool" where
  "num_end s = (step s = State1 \<or> step s = State0 \<or> step s = StateDot0 \<or> step s = StateE0)"

definition ws_stable :: "scanner \<Rightarrow> bool" where
  "ws_stable s = (step s = StateBeginValueOrEmpty \<or> step s = StateBeginValue
     \<or> step s = StateBeginStringOrEmpty \<or> step s = StateBeginString
     \<or> (step s = StateEndValue \<and> parseState s \<noteq> []))"

definition ahead :: "scanner \<Rightarrow> scanner \<Rightarrow> bool" where
  "ahead sA sB = (sA = sB \<or> (num_end sB \<and> parseState sB \<noteq> [] \<and> sA = sB\<lparr>step := StateEndValue\<rparr>))"


definition ws_only :: "string \<Rightarrow> bool" where
  "ws_only xs = list_all isSpace xs"

definition newline_ws :: "string \<Rightarrow> string \<Rightarrow> int \<Rightarrow> string" where
  "newline_ws prefix indent depth = [CHR 0x0A] @ prefix @ concat (replicate (nat depth) indent)"

section \<open>Facts about paths\<close>

lemma v3_dir_ne: "v3_dir out \<noteq> []"
  by (simp add: v3_dir_def)


lemma split_path_nonempty: "split_path xs \<noteq> []"
  by (induction xs) (auto split: list.splits)

lemma split_path_no_sep: "Separator \<notin> set f \<Longrightarrow> split_path f = [f]"
  by (induction f) auto

lemma split_path_append: "split_path (xs @ Separator # ys) = split_path xs @ split_path ys"
proof (induction xs)
  case Nil
  show ?case by simp
next
  case (Cons x xs)
  then show ?case
    by (cases "split_path xs") (auto simp: split_path_nonempty)
qed

lemma dropWhile_none: "\<forall>x \<in> set xs. \<not> P x \<Longrightarrow> dropWhile P xs = xs"
  by (cases xs) auto

lemma Base_no_sep:
  assumes ne: "f \<noteq> []" and ns: "Separator \<notin> set f"
  shows "Base f = f"
proof -
  have "\<forall>x \<in> set (rev f). \<not> (x = Separator)" using ns by auto
  then have "dropWhile (\<lambda>c. c = Separator) (rev f) = rev f"
    by (rule dropWhile_none)
  then have s: "strip_trailing f = f" by (simp add: strip_trailing_def)
  have tw: "takeWhile (\<lambda>c. c \<noteq> Separator) (rev f) = rev f"
    using ns by (auto simp: takeWhile_eq_all_conv)
  show ?thesis unfolding Base_def Let_def s tw using ne by simp
qed

lemma clean_elems_snoc:
  "f \<noteq> [] \<Longrightarrow> f \<noteq> ''.'' \<Longrightarrow> f \<noteq> ''..'' \<Longrightarrow> clean_elems r (es @ [f]) = clean_elems r es @ [f]"
  by (simp add: clean_elems_def clean_step_def)

lemma join_sep_snoc: "join_sep (es @ [f]) = (if es = [] then f else join_sep es @ Separator # f)"
  by (induction es rule: join_sep.induct) auto


lemma good_dotdot: "good_elem ''..''"
  by (simp add: good_elem_def Separator_def)

lemma split_path_no_sep_elems: "e \<in> set (split_path p) \<Longrightarrow> Separator \<notin> set e"
proof (induction p arbitrary: e)
  case Nil then show ?case by simp
next
  case (Cons c cs)
  show ?case
  proof (cases "c = Separator")
    case True
    with Cons show ?thesis by auto
  next
    case False
    obtain w ws where sp: "split_path cs = w # ws"
      using split_path_nonempty by (cases "split_path cs") auto
    with False Cons.prems have "e = c # w \<or> e \<in> set ws" by simp
    then show ?thesis
    proof
      assume "e = c # w"
      moreover have "Separator \<notin> set w" using Cons.IH[of w] sp by simp
      ultimately show ?thesis using False by auto
    next
      assume "e \<in> set ws"
      then show ?thesis using Cons.IH[of e] sp by simp
    qed
  qed
qed

lemma clean_step_good:
  assumes "\<forall>e \<in> set st. good_elem e" "Separator \<notin> set x"
  shows "\<forall>e \<in> set (clean_step r st x). good_elem e"
proof (cases "x = [] \<or> x = ''.''")
  case True
  then show ?thesis using assms by (auto simp: clean_step_def)
next
  case False
  note nx = this
  show ?thesis
  proof (cases "x = ''..''")
    case True
    show ?thesis
    proof (cases st)
      case Nil
      then show ?thesis using True good_dotdot by (simp add: clean_step_def)
    next
      case (Cons t ts)
      then show ?thesis using True assms(1) good_dotdot by (simp add: clean_step_def)
    qed
  next
    case False
    then have "clean_step r st x = x # st" using nx by (simp add: clean_step_def)
    moreover have "good_elem x" using nx assms(2) by (simp add: good_elem_def)
    ultimately show ?thesis using assms(1) by simp
  qed
qed


lemma foldl_clean_step_good:
  "\<forall>e \<in> set st. good_elem e \<Longrightarrow> \<forall>x \<in> set es. Separator \<notin> set x
   \<Longrightarrow> \<forall>e \<in> set (foldl (clean_step r) st es). good_elem e"
proof (induction es arbitrary: st)
  case Nil then show ?case by simp
next
  case (Cons x es)
  have "\<forall>e \<in> set (clean_step r st x). good_elem e"
    using Cons.prems by (intro clean_step_good) auto
  moreover have "\<forall>x \<in> set es. Separator \<notin> set x" using Cons.prems by auto
  ultimately have "\<forall>e \<in> set (foldl (clean_step r) (clean_step r st x) es). good_elem e"
    by (rule Cons.IH)
  then show ?case by simp
qed

lemma clean_elems_good: "e \<in> set (clean_elems r (split_path p)) \<Longrightarrow> good_elem e"
  using foldl_clean_step_good[of "[]" "split_path p" r] split_path_no_sep_elems
  by (simp add: clean_elems_def)

lemma join_sep_good:
  assumes "es \<noteq> []" "\<forall>e \<in> set es. good_elem e"
  shows "join_sep es \<noteq> [] \<and> join_sep es \<noteq> ''.'' \<and> hd (join_sep es) \<noteq> Separator"
proof -
  obtain e rest where es: "es = e # rest" using assms(1) by (cases es) auto
  then have g: "good_elem e" using assms(2) by simp
  then obtain a as where e: "e = a # as" by (cases e) (auto simp: good_elem_def)
  have a: "a \<noteq> Separator" using g e by (auto simp: good_elem_def)
  show ?thesis
  proof (cases rest)
    case Nil
    with es g e a show ?thesis by (simp add: good_elem_def)
  next
    case (Cons e2 rest2)
    with es have "join_sep es = e @ Separator # join_sep rest" by simp
    then show ?thesis using e a by (simp add: Separator_def)
  qed
qed

lemma Clean_child:
  assumes "a \<noteq> []" "proper_name f"
  shows "Clean (a @ Separator # f) =
           (if Clean a = [Separator] then Separator # f
            else if Clean a = ''.'' then f
            else Clean a @ Separator # f)"
proof -
  have f: "f \<noteq> []" "f \<noteq> ''.''" "f \<noteq> ''..''" "Separator \<notin> set f"
    using assms(2) by (auto simp: proper_name_def)
  have r: "is_rooted (a @ Separator # f) = is_rooted a"
    using assms(1) by (cases a) (auto simp: is_rooted_def)
  define st where "st = clean_elems (is_rooted a) (split_path a)"
  have ce: "clean_elems (is_rooted a) (split_path (a @ Separator # f)) = st @ [f]"
    using f by (simp add: split_path_append split_path_no_sep clean_elems_snoc st_def)
  have st: "\<forall>e \<in> set st. good_elem e"
    using clean_elems_good st_def by blast
  have L: "Clean (a @ Separator # f) = render (is_rooted a) (st @ [f])"
    by (simp add: Clean_def r ce)
  have R: "Clean a = render (is_rooted a) st" by (simp add: Clean_def st_def)
  show ?thesis
  proof (cases "st = []")
    case True
    then show ?thesis using L R f by (auto simp: render_def join_sep_snoc Separator_def)
  next
    case False
    from join_sep_good[OF False st]
    have j: "join_sep st \<noteq> []" "join_sep st \<noteq> ''.''" "hd (join_sep st) \<noteq> Separator" by auto
    then obtain c cs where jc: "join_sep st = c # cs" "c \<noteq> Separator"
      by (cases "join_sep st") auto
    show ?thesis
    proof (cases "is_rooted a")
      case True
      then show ?thesis using L R False jc by (simp add: render_def join_sep_snoc)
    next
      case nr: False
      then show ?thesis using L R False jc j by (simp add: render_def join_sep_snoc)
    qed
  qed
qed

lemma Clean_v3_dir:
  "Clean (v3_dir out) =
     (if out = [] \<or> Clean out = ''/'' then ''/v3''
      else if Clean out = ''.'' then ''v3''
      else Clean out @ ''/v3'')"
proof (cases "out = []")
  case True
  then show ?thesis
    by (simp add: v3_dir_def Clean_def is_rooted_def Separator_def clean_elems_def clean_step_def render_def)
next
  case False
  have p: "proper_name ''v3''" by (simp add: proper_name_def Separator_def)
  have "v3_dir out = out @ Separator # ''v3''" by (simp add: v3_dir_def Separator_def)
  then show ?thesis using Clean_child[OF False p] False by (simp add: Separator_def)
qed

lemma Clean_v3_dir_proper: "Clean (v3_dir out) \<noteq> ''/'' \<and> Clean (v3_dir out) \<noteq> ''.''"
  by (simp add: Clean_v3_dir)

lemma v3_fileName_proper:
  assumes "Separator \<notin> set g" "Separator \<notin> set v"
  shows "proper_name (v3_fileName \<lparr>Group = g, Version = v\<rparr>)"
  using assms by (simp add: proper_name_def v3_fileName_def Separator_def)

lemma Join_v3:
  assumes "Separator \<notin> set g" "Separator \<notin> set v"
  shows "Join (v3_dir out) (Base (v3_fileName \<lparr>Group = g, Version = v\<rparr>)) =
           Clean (v3_dir out) @ ''/apis__'' @ g @ ''__'' @ v @ ''_openapi.json''"
proof -
  let ?f = "v3_fileName \<lparr>Group = g, Version = v\<rparr>"
  have p: "proper_name ?f" using assms by (rule v3_fileName_proper)
  then have b: "Base ?f = ?f" by (intro Base_no_sep) (auto simp: proper_name_def)
  have ne: "v3_dir out \<noteq> []" by (simp add: v3_dir_def)
  have "Join (v3_dir out) ?f = Clean (v3_dir out @ Separator # ?f)"
    using ne by (simp add: Join_def)
  also have "\<dots> = Clean (v3_dir out) @ Separator # ?f"
    using Clean_child[OF ne p] Clean_v3_dir_proper[of out] by (simp add: Separator_def)
  finally have "Join (v3_dir out) ?f = Clean (v3_dir out) @ Separator # ?f" .
  then show ?thesis unfolding b by (simp add: v3_fileName_def Separator_def)
qed

lemma Join_swagger:
  "Join out (Base ''swagger.json'') =
     (if out = [] \<or> Clean out = ''.'' then ''swagger.json''
      else if Clean out = ''/'' then ''/swagger.json''
      else Clean out @ ''/swagger.json'')"
proof -
  have p: "proper_name ''swagger.json''" by (simp add: proper_name_def Separator_def)
  then have b: "Base ''swagger.json'' = ''swagger.json''"
    by (intro Base_no_sep) (auto simp: proper_name_def)
  show ?thesis
  proof (cases "out = []")
    case True
    then show ?thesis unfolding b
      by (simp add: Join_def Clean_def is_rooted_def Separator_def clean_elems_def clean_step_def render_def)
  next
    case False
    then show ?thesis unfolding b using Clean_child[OF False p]
      by (simp add: Join_def Separator_def)
  qed
qed


lemma writeJSONFile_ok_trace:
  assumes "os_MkdirAll en (trace w) dir = None" "Indent jsonData [] [CHR 0x09] = Inr pretty"
  shows "trace (snd (writeJSONFile en w dir name jsonData)) =
           trace w @ [MkdirAll dir, WriteFile (Join dir (Base name)) pretty]"
  using assms by (simp add: writeJSONFile_def os_MkdirAll_def v3_dir_ne emit_def Let_def split: write_outcome.splits)

section \<open>C8: destination file names\<close>

text \<open>
  Claim C8, as amended. For a group and a version that contain no path separator, the
  v3 document of the group-version is written to the file
  \<open>apis__<group>__<version>_openapi.json\<close> directly under the cleaned path of
  \<open><output>/v3\<close>, which is the directory \<open>v3\<close> under the cleaned output directory, and
  the v2 document to \<open>swagger.json\<close> directly under the cleaned output directory. The
  runs considered are those in which the fetch, the creation of the directory and the
  pretty-printing succeed, so that a file name is computed at all.
\<close>

theorem destination_names:
  assumes "Separator \<notin> set g" and "Separator \<notin> set v"
    and "http_get en (trace w) (v3_path g v) = Inr data3"
    and "os_MkdirAll en (trace w @ [HttpGet (v3_path g v)]) (out @ ''/v3'') = None"
    and "Indent data3 [] [CHR 0x09] = Inr pretty3"
    and "http_get en (trace w) ''/openapi/v2'' = Inr data2"
    and "os_MkdirAll en (trace w @ [HttpGet ''/openapi/v2'']) out = None"
    and "Indent data2 [] [CHR 0x09] = Inr pretty2"
  shows "trace (snd (extractOpenAPIv3 en w [\<lparr>Group = g, Version = v\<rparr>] out)) =
           trace w @ [HttpGet (v3_path g v), MkdirAll (out @ ''/v3''),
             WriteFile (Clean (out @ ''/v3'') @ ''/apis__'' @ g @ ''__'' @ v @ ''_openapi.json'') pretty3]
       \<and> Clean (out @ ''/v3'') =
             (if Clean out = ''/'' then ''/v3''
              else if Clean out = ''.'' then ''v3''
              else Clean out @ ''/v3'')
       \<and> trace (snd (extractOpenAPIv2 en w out)) =
           trace w @ [HttpGet ''/openapi/v2'', MkdirAll out,
             WriteFile (if Clean out = ''.'' then ''swagger.json''
                        else if Clean out = ''/'' then ''/swagger.json''
                        else Clean out @ ''/swagger.json'') pretty2]"
proof (intro conjI)
  let ?w1 = "emit (HttpGet (v3_path g v)) w"
  have m: "os_MkdirAll en (trace ?w1) (v3_dir out) = None"
    using assms(4) by (simp add: emit_def v3_dir_def)
  have "trace (snd (writeJSONFile en ?w1 (v3_dir out) (v3_fileName \<lparr>Group = g, Version = v\<rparr>) data3)) =
          trace ?w1 @ [MkdirAll (v3_dir out),
            WriteFile (Join (v3_dir out) (Base (v3_fileName \<lparr>Group = g, Version = v\<rparr>))) pretty3]"
    using m assms(5) by (rule writeJSONFile_ok_trace)
  then have t: "trace (snd (writeJSONFile en ?w1 (v3_dir out) (v3_fileName \<lparr>Group = g, Version = v\<rparr>) data3)) =
          trace w @ [HttpGet (v3_path g v), MkdirAll (out @ ''/v3''),
             WriteFile (Clean (out @ ''/v3'') @ ''/apis__'' @ g @ ''__'' @ v @ ''_openapi.json'') pretty3]"
    using Join_v3[OF assms(1,2), of out] by (simp add: emit_def v3_dir_def)
  show "trace (snd (extractOpenAPIv3 en w [\<lparr>Group = g, Version = v\<rparr>] out)) =
           trace w @ [HttpGet (v3_path g v), MkdirAll (out @ ''/v3''),
             WriteFile (Clean (out @ ''/v3'') @ ''/apis__'' @ g @ ''__'' @ v @ ''_openapi.json'') pretty3]"
    using t assms(3) by (auto simp: getPath_def Let_def split: prod.splits option.splits)
next
  have ne: "out \<noteq> []" using assms(7) by (auto simp: os_MkdirAll_def)
  then show "Clean (out @ ''/v3'') =
             (if Clean out = ''/'' then ''/v3''
              else if Clean out = ''.'' then ''v3''
              else Clean out @ ''/v3'')"
    using Clean_v3_dir[of out] by (simp add: v3_dir_def)
next
  have ne: "out \<noteq> []" using assms(7) by (auto simp: os_MkdirAll_def)
  let ?w1 = "emit (HttpGet ''/openapi/v2'') w"
  have m: "os_MkdirAll en (trace ?w1) out = None"
    using assms(7) by (simp add: emit_def)
  have "trace (snd (writeJSONFile en ?w1 out ''swagger.json'' data2)) =
          trace ?w1 @ [MkdirAll out, WriteFile (Join out (Base ''swagger.json'')) pretty2]"
    using m assms(8) by (rule writeJSONFile_ok_trace)
  then have t: "trace (snd (writeJSONFile en ?w1 out ''swagger.json'' data2)) =
          trace w @ [HttpGet ''/openapi/v2'', MkdirAll out,
             WriteFile (if Clean out = ''.'' then ''swagger.json''
                        else if Clean out = ''/'' then ''/swagger.json''
                        else Clean out @ ''/swagger.json'') pretty2]"
    unfolding Join_swagger using ne by (simp add: emit_def)
  show "trace (snd (extractOpenAPIv2 en w out)) =
           trace w @ [HttpGet ''/openapi/v2'', MkdirAll out,
             WriteFile (if Clean out = ''.'' then ''swagger.json''
                        else if Clean out = ''/'' then ''/swagger.json''
                        else Clean out @ ''/swagger.json'') pretty2]"
    using t assms(6) by (auto simp: extractOpenAPIv2_def getPath_def Let_def split: prod.splits option.splits)
qed

lemmas path_defs = Join_def Base_def Clean_def strip_trailing_def Separator_def is_rooted_def
  clean_elems_def clean_step_def render_def

lemmas scan_defs = newScanner_def scan_step_def scan_eof_def isSpace_def isDigit_def isDigit19_def
  isHex_def scan_error_def scan_panic_def pushParseState_def popParseState_def maxNestingDepth_def
  stateEndTop_def stateEndValue_def stateBeginValue_def stateBeginValueOrEmpty_def
  stateBeginString_def stateBeginStringOrEmpty_def stateInString_def stateInStringEsc_def
  stateHex_def state0_def state1_def stateNeg_def stateDot_def stateDot0_def stateESign_def
  stateE_def stateE0_def stateLetter_def

lemma Indent_1: "Indent ''1'' [] [CHR 0x09] = Inr ''1''"
  by (simp add: Indent_def indent_byte_def appendNewline_def scan_defs)

lemma Clean_out: "Clean ''out'' = ''out''" "Clean ''out/v3'' = ''out/v3''"
  by (simp_all add: path_defs)

text \<open>The instance of the specification: group \<open>foo.example.com\<close>, version \<open>v1\<close>.\<close>

theorem destination_names_witness:
  "trace (snd (extractOpenAPIv3 (quiet_env ''1'' [] ''out'') empty_world
                 [\<lparr>Group = ''foo.example.com'', Version = ''v1''\<rparr>] ''out'')) =
     [HttpGet ''/openapi/v3/apis/foo.example.com/v1'', MkdirAll ''out/v3'',
      WriteFile ''out/v3/apis__foo.example.com__v1_openapi.json'' ''1'']
   \<and> Clean ''out/v3'' = ''out/v3''
   \<and> trace (snd (extractOpenAPIv2 (quiet_env ''1'' [] ''out'') empty_world ''out'')) =
     [HttpGet ''/openapi/v2'', MkdirAll ''out'', WriteFile ''out/swagger.json'' ''1'']"
  using destination_names[of "''foo.example.com''" "''v1''" "quiet_env ''1'' [] ''out''" empty_world
      "''1''" "''out''" "''1''" "''1''" "''1''"]
  by (simp add: Indent_1 Clean_out quiet_env_def empty_world_def Separator_def v3_path_def os_MkdirAll_def)

text \<open>
  With a separator in the group only the part after the last separator is left of the
  file name, because \<open>writeJSONFile\<close> takes the base of the name it is given.
\<close>

theorem destination_names_counterexample:
  "trace (snd (extractOpenAPIv3 (quiet_env ''1'' [] ''out'') empty_world
                 [\<lparr>Group = ''a/b'', Version = ''v1''\<rparr>] ''out'')) =
     [HttpGet ''/openapi/v3/apis/a/b/v1'', MkdirAll ''out/v3'',
      WriteFile ''out/v3/b__v1_openapi.json'' ''1'']
   \<and> ''out/v3/b__v1_openapi.json'' \<noteq> ''out/v3/apis__a/b__v1_openapi.json''"
  by (simp add: Indent_1 quiet_env_def empty_world_def getPath_def writeJSONFile_def os_MkdirAll_def v3_dir_ne emit_def
      v3_path_def v3_dir_def v3_fileName_def path_defs Let_def)

section \<open>Facts about writeJSONFile and the extraction loops\<close>


lemma writeJSONFile_None:
  assumes "writeJSONFile en w dir name jsonData = (None, w')"
  shows "\<exists>pretty. Indent jsonData [] [CHR 0x09] = Inr pretty
           \<and> trace w' = trace w @ [MkdirAll dir, WriteFile (Join dir (Base name)) pretty]
           \<and> files w' = (files w)(Join dir (Base name) \<mapsto> pretty)"
  using assms
  by (auto simp: writeJSONFile_def os_MkdirAll_def v3_dir_ne emit_def Let_def
           split: option.splits sum.splits write_outcome.splits)

lemma writeJSONFile_Some:
  assumes "writeJSONFile en w dir name jsonData = (Some e, w')"
  shows "(\<exists>t. trace w' = trace w @ MkdirAll dir # t \<and> set t \<subseteq> range (WriteFile (Join dir (Base name))))
           \<and> (\<forall>p. p \<noteq> Join dir (Base name) \<longrightarrow> files w' p = files w p)"
  using assms
  by (auto simp: writeJSONFile_def os_MkdirAll_def v3_dir_ne emit_def Let_def
           split: option.splits sum.splits write_outcome.splits)

lemma getPath_trace: "trace (snd (getPath en w path)) = trace w @ [HttpGet path]"
  "files (snd (getPath en w path)) = files w"
  by (auto simp: getPath_def emit_def split: sum.splits)

lemma extractOpenAPIv3_None:
  "extractOpenAPIv3 en w services out = (None, w') \<Longrightarrow>
     \<exists>ds. length ds = length services
        \<and> trace w' = trace w @ concat (map2 (v3_ops out) services ds)"
proof (induction services arbitrary: w)
  case Nil
  then show ?case by simp
next
  case (Cons svc services)
  let ?path = "v3_path (Group svc) (Version svc)"
  from Cons.prems obtain resp w1 w2 where
    g: "getPath en w ?path = (Inr resp, w1)"
    and wr: "writeJSONFile en w1 (v3_dir out) (v3_fileName svc) resp = (None, w2)"
    and rest: "extractOpenAPIv3 en w2 services out = (None, w')"
    by (auto simp: Let_def split: prod.splits sum.splits option.splits)
  from g have t1: "trace w1 = trace w @ [HttpGet ?path]"
    using getPath_trace(1)[of en w ?path] by simp
  from writeJSONFile_None[OF wr] obtain pretty where
    t2: "trace w2 = trace w1 @ [MkdirAll (v3_dir out), WriteFile (v3_dest out svc) pretty]"
    by (auto simp: v3_dest_def)
  from Cons.IH[OF rest] obtain ds where
    ds: "length ds = length services" "trace w' = trace w2 @ concat (map2 (v3_ops out) services ds)"
    by blast
  have "length (pretty # ds) = length (svc # services)" using ds by simp
  moreover have "trace w' = trace w @ concat (map2 (v3_ops out) (svc # services) (pretty # ds))"
    using ds t1 t2 by (simp add: v3_ops_def)
  ultimately show ?case by blast
qed


section \<open>Facts about the poll loop\<close>


lemma loop_invariant:
  assumes step: "\<And>st. P st \<Longrightarrow> P (snd (condition st))"
  shows "P st \<Longrightarrow> P (snd (loopConditionUntilContext condition st obs))"
proof (induction obs arbitrary: st)
  case Nil
  then show ?case by simp
next
  case (Cons ob obs)
  show ?case
  proof (cases ob)
    case (Some e)
    then show ?thesis using Cons.prems by simp
  next
    case None
    obtain d st' where c: "condition st = (d, st')" by (cases "condition st")
    have p: "P st'" using step[OF Cons.prems] c by simp
    show ?thesis
    proof (cases d)
      case True
      then show ?thesis using None c p by simp
    next
      case False
      then show ?thesis using None c Cons.IH[OF p] by simp
    qed
  qed
qed

lemma poll_invariant:
  assumes step: "\<And>st. P st \<Longrightarrow> P (snd (condition st))"
  shows "P st \<Longrightarrow> P (snd (PollUntilContextTimeout condition st obs))"
proof -
  assume pst: "P st"
  obtain d st' where c: "condition st = (d, st')" by (cases "condition st")
  have p: "P st'" using step[OF pst] c by simp
  show ?thesis
  proof (cases d)
    case True
    then show ?thesis using c p by (simp add: PollUntilContextTimeout_def)
  next
    case False
    then show ?thesis using c loop_invariant[of P condition st' obs, OF step p]
      by (simp add: PollUntilContextTimeout_def)
  qed
qed

lemma poll_round_io: "io_events (trace (snd (snd (poll_round en (S, w))))) = io_events (trace w)"
  by (simp add: poll_round_def emit_def io_events_def Let_def)

lemma poll_round_lifecycle: "lifecycle (trace (snd (snd (poll_round en (S, w))))) = lifecycle (trace w)"
  by (simp add: poll_round_def emit_def lifecycle_def Let_def)

lemma poll_round_files: "files (snd (snd (poll_round en (S, w)))) = files w"
  by (simp add: poll_round_def emit_def Let_def)

lemma waitFor_frame:
  "io_events (trace (snd (waitForAPIServicesOpenAPIV3 en w services))) = io_events (trace w)"
  "lifecycle (trace (snd (waitForAPIServicesOpenAPIV3 en w services))) = lifecycle (trace w)"
  "files (snd (waitForAPIServicesOpenAPIV3 en w services)) = files w"
proof -
  let ?r = "PollUntilContextTimeout (poll_round en) (registered_set services, w) (ctx_obs en)"
  have w': "snd (waitForAPIServicesOpenAPIV3 en w services) = snd (snd ?r)"
    by (simp add: waitForAPIServicesOpenAPIV3_def split: prod.splits option.splits)
  have "io_events (trace (snd (snd ?r))) = io_events (trace w)"
    using poll_invariant[of "\<lambda>st. io_events (trace (snd st)) = io_events (trace w)" "poll_round en"
                            "(registered_set services, w)" "ctx_obs en"]
      poll_round_io by (simp add: split_paired_all)
  then show "io_events (trace (snd (waitForAPIServicesOpenAPIV3 en w services))) = io_events (trace w)"
    using w' by simp
  have "lifecycle (trace (snd (snd ?r))) = lifecycle (trace w)"
    using poll_invariant[of "\<lambda>st. lifecycle (trace (snd st)) = lifecycle (trace w)" "poll_round en"
                            "(registered_set services, w)" "ctx_obs en"]
      poll_round_lifecycle by (simp add: split_paired_all)
  then show "lifecycle (trace (snd (waitForAPIServicesOpenAPIV3 en w services))) = lifecycle (trace w)"
    using w' by simp
  have "files (snd (snd ?r)) = files w"
    using poll_invariant[of "\<lambda>st. files (snd st) = files w" "poll_round en"
                            "(registered_set services, w)" "ctx_obs en"]
      poll_round_files by (simp add: split_paired_all)
  then show "files (snd (waitForAPIServicesOpenAPIV3 en w services)) = files w"
    using w' by simp
qed

section \<open>Facts about extractOpenAPI\<close>


lemma deferred_stop_files:
  "files (deferred_stop_apiserver en w) = files w"
  "files (deferred_stop_testenv en w) = files w"
  by (simp_all add: deferred_stop_apiserver_def deferred_stop_testenv_def emit_def
        split: option.splits)



section \<open>C5: the order of extraction\<close>



section \<open>A failing extraction\<close>

lemma fetched_append: "fetched (a @ b) = fetched a @ fetched b"
  by (induction a rule: fetched.induct) auto

lemma fetched_writes: "set t \<subseteq> range (WriteFile f) \<Longrightarrow> fetched t = []"
  by (induction t rule: fetched.induct) auto

lemma extractOpenAPIv3_Some:
  "extractOpenAPIv3 en w services out = (Some e, w') \<Longrightarrow>
     \<exists>k wk. k < length services
        \<and> extractOpenAPIv3 en w (take k services) out = (None, wk)
        \<and> fetched (trace w') = fetched (trace wk) @ [v3_path (Group (services ! k)) (Version (services ! k))]
        \<and> (\<forall>p. p \<noteq> v3_dest out (services ! k) \<longrightarrow> files w' p = files wk p)"
proof (induction services arbitrary: w)
  case Nil
  then show ?case by simp
next
  case (Cons svc services)
  let ?path = "v3_path (Group svc) (Version svc)"
  obtain r1 w1 where g: "getPath en w ?path = (r1, w1)" by (cases "getPath en w ?path")
  have t1: "trace w1 = trace w @ [HttpGet ?path]" and f1: "files w1 = files w"
    using getPath_trace[of en w ?path] g by simp_all
  have base: "extractOpenAPIv3 en w (take 0 (svc # services)) out = (None, w)" by simp
  show ?case
  proof (cases r1)
    case (Inl ge)
    with Cons.prems g have "w' = w1" by (simp add: Let_def)
    then have "fetched (trace w') = fetched (trace w) @ [?path]"
      and "\<forall>p. files w' p = files w p"
      using t1 f1 by (simp_all add: fetched_append)
    with base show ?thesis by (intro exI[of _ 0] exI[of _ w]) simp
  next
    case (Inr resp)
    obtain r2 w2 where wr: "writeJSONFile en w1 (v3_dir out) (v3_fileName svc) resp = (r2, w2)"
      by (cases "writeJSONFile en w1 (v3_dir out) (v3_fileName svc) resp")
    show ?thesis
    proof (cases r2)
      case (Some we)
      with Cons.prems g Inr wr have w': "w' = w2" by (simp add: Let_def)
      from writeJSONFile_Some[OF wr[unfolded Some]] obtain t where
        t2: "trace w2 = trace w1 @ MkdirAll (v3_dir out) # t"
        and tw: "set t \<subseteq> range (WriteFile (Join (v3_dir out) (Base (v3_fileName svc))))"
        and f2: "\<forall>p. p \<noteq> Join (v3_dir out) (Base (v3_fileName svc)) \<longrightarrow> files w2 p = files w1 p"
        by blast
      have "fetched (trace w') = fetched (trace w) @ [?path]"
        using w' t1 t2 fetched_writes[OF tw] by (simp add: fetched_append)
      moreover have "\<forall>p. p \<noteq> v3_dest out svc \<longrightarrow> files w' p = files w p"
        using w' f1 f2 by (simp add: v3_dest_def)
      ultimately show ?thesis using base by (intro exI[of _ 0] exI[of _ w]) simp
    next
      case None
      with Cons.prems g Inr wr have rest: "extractOpenAPIv3 en w2 services out = (Some e, w')"
        by (simp add: Let_def)
      from Cons.IH[OF rest] obtain k wk where
        k: "k < length services"
        and pre: "extractOpenAPIv3 en w2 (take k services) out = (None, wk)"
        and fe: "fetched (trace w') = fetched (trace wk) @ [v3_path (Group (services ! k)) (Version (services ! k))]"
        and fr: "\<forall>p. p \<noteq> v3_dest out (services ! k) \<longrightarrow> files w' p = files wk p"
        by blast
      have "extractOpenAPIv3 en w (take (Suc k) (svc # services)) out = (None, wk)"
        using g Inr wr None pre by (simp add: Let_def)
      then show ?thesis using k fe fr by (intro exI[of _ "Suc k"] exI[of _ wk]) simp
    qed
  qed
qed

lemma takeWhile_prefix_all: "\<forall>x \<in> set xs. P x \<Longrightarrow> takeWhile P (xs @ ys) = xs @ takeWhile P ys"
  by (induction xs) auto

lemma Base_suffix:
  assumes ne: "s \<noteq> []" and ns: "Separator \<notin> set s"
  shows "\<exists>t. Base (x @ s) = t @ s \<and> Separator \<notin> set t"
proof -
  have "\<forall>c \<in> set (rev (x @ s)). True" by simp
  obtain c cs where rs: "rev s = c # cs" using ne by (cases "rev s") auto
  then have c: "c \<noteq> Separator" using ns by (metis list.set_intros(1) set_rev)
  have "rev (x @ s) = c # cs @ rev x" using rs by simp
  then have "dropWhile (\<lambda>c. c = Separator) (rev (x @ s)) = rev (x @ s)" using c by simp
  then have st: "strip_trailing (x @ s) = x @ s" by (simp add: strip_trailing_def)
  have "\<forall>c \<in> set (rev s). c \<noteq> Separator" using ns by auto
  then have tw: "takeWhile (\<lambda>c. c \<noteq> Separator) (rev s @ rev x) =
                   rev s @ takeWhile (\<lambda>c. c \<noteq> Separator) (rev x)"
    by (rule takeWhile_prefix_all)
  define t where "t = rev (takeWhile (\<lambda>c. c \<noteq> Separator) (rev x))"
  have e: "rev (takeWhile (\<lambda>c. c \<noteq> Separator) (rev (x @ s))) = t @ s"
    using tw by (simp add: t_def)
  have nt: "Separator \<notin> set t"
    unfolding t_def using set_takeWhileD[of Separator "\<lambda>c. c \<noteq> Separator" "rev x"] by auto
  have "Base (x @ s) = t @ s"
    unfolding Base_def Let_def st e using ne by simp
  with nt show ?thesis by blast
qed

lemma Base_v3_fileName:
  "\<exists>t. Base (v3_fileName svc) = t @ ''_openapi.json'' \<and> Separator \<notin> set t"
proof -
  have "v3_fileName svc = (''apis__'' @ Group svc @ ''__'' @ Version svc) @ ''_openapi.json''"
    by (simp add: v3_fileName_def)
  moreover have "\<exists>t. Base ((''apis__'' @ Group svc @ ''__'' @ Version svc) @ ''_openapi.json'')
                    = t @ ''_openapi.json'' \<and> Separator \<notin> set t"
    by (rule Base_suffix) (simp_all add: Separator_def)
  ultimately show ?thesis by simp
qed

lemma v3_dest_shape:
  "\<exists>t. v3_dest out svc = Clean (v3_dir out) @ Separator # t @ ''_openapi.json'' \<and> Separator \<notin> set t"
proof -
  obtain t where b: "Base (v3_fileName svc) = t @ ''_openapi.json''" and nt: "Separator \<notin> set t"
    using Base_v3_fileName by blast
  have p: "proper_name (t @ ''_openapi.json'')"
    using nt by (cases t) (auto simp: proper_name_def Separator_def)
  have ne: "v3_dir out \<noteq> []" by (simp add: v3_dir_def)
  have "v3_dest out svc = Clean (v3_dir out @ Separator # t @ ''_openapi.json'')"
    using ne by (simp add: v3_dest_def b Join_def)
  also have "\<dots> = Clean (v3_dir out) @ Separator # t @ ''_openapi.json''"
    using Clean_child[OF ne p] Clean_v3_dir_proper[of out] by (simp add: Separator_def)
  finally show ?thesis using nt by blast
qed

lemma v2_dest_neq_v3_dest: "v2_dest out \<noteq> v3_dest out svc"
proof
  assume eq: "v2_dest out = v3_dest out svc"
  obtain t where "v3_dest out svc = Clean (v3_dir out) @ Separator # t @ ''_openapi.json''"
    using v3_dest_shape by blast
  then have a: "v3_dest out svc = (Clean (v3_dir out) @ Separator # t @ ''_openap'') @ ''i.json''"
    by simp
  have "\<exists>q. v2_dest out = q @ ''r.json''"
  proof -
    have "v2_dest out = ''swagge'' @ ''r.json'' \<or> v2_dest out = ''/swagge'' @ ''r.json''
            \<or> v2_dest out = (Clean out @ ''/swagge'') @ ''r.json''"
      by (simp add: v2_dest_def Join_swagger)
    then show ?thesis by blast
  qed
  then obtain q where b: "v2_dest out = q @ ''r.json''" by blast
  from eq a b have "q @ ''r.json'' = (Clean (v3_dir out) @ Separator # t @ ''_openap'') @ ''i.json''"
    by simp
  then have "''r.json'' = ''i.json''" by (subst (asm) append_eq_append_conv) simp_all
  then show False by simp
qed

lemma fetched_v3_ops:
  "length ds = length xs \<Longrightarrow>
     fetched (concat (map2 (v3_ops out) xs ds)) = map (\<lambda>s. v3_path (Group s) (Version s)) xs"
proof (induction xs arbitrary: ds)
  case Nil
  then show ?case by simp
next
  case (Cons x xs)
  then obtain d ds' where "ds = d # ds'" by (cases ds) auto
  with Cons show ?case by (simp add: v3_ops_def fetched_append)
qed

section \<open>The files of a successful v3 extraction\<close>








section \<open>The rounds of the poll\<close>

lemma rounds_append: "rounds (a @ b) = rounds a @ rounds b"
  by (induction a rule: rounds.induct) auto

lemma poll_round_rounds:
  assumes "poll_round en (S, w) = (d, S', w1)"
  shows "rounds (trace w1) = rounds (trace w) @ [S]" and "S' \<subseteq> S" and "\<not> d \<Longrightarrow> S' \<noteq> {}"
    and "\<not> d \<Longrightarrow> trace w1 = trace w @ [HeadRound S, LogUnavailable S']"
  using assms
  by (auto simp: poll_round_def emit_def Let_def rounds_append split: if_splits)

lemma loop_rounds:
  "\<exists>R. rounds (trace (snd (snd (loopConditionUntilContext (poll_round en) (S, w) obs)))) = rounds (trace w) @ R
       \<and> sorted_wrt (\<lambda>A B. B \<subseteq> A) R \<and> (\<forall>A \<in> set R. A \<subseteq> S)"
proof (induction obs arbitrary: S w)
  case Nil
  show ?case by simp
next
  case (Cons ob obs)
  show ?case
  proof (cases ob)
    case (Some e)
    then show ?thesis by simp
  next
    case None
    obtain d S' w1 where c: "poll_round en (S, w) = (d, S', w1)"
      by (cases "poll_round en (S, w)") auto
    note pr = poll_round_rounds[OF c]
    show ?thesis
    proof (cases d)
      case True
      then have "rounds (trace (snd (snd (loopConditionUntilContext (poll_round en) (S, w) (ob # obs)))))
                   = rounds (trace w) @ [S]"
        using None c pr(1) by simp
      then show ?thesis by (intro exI[of _ "[S]"]) simp
    next
      case False
      from Cons.IH[of S' w1] obtain R where
        R: "rounds (trace (snd (snd (loopConditionUntilContext (poll_round en) (S', w1) obs)))) = rounds (trace w1) @ R"
           "sorted_wrt (\<lambda>A B. B \<subseteq> A) R" "\<forall>A \<in> set R. A \<subseteq> S'"
        by blast
      have "rounds (trace (snd (snd (loopConditionUntilContext (poll_round en) (S, w) (ob # obs)))))
                   = rounds (trace w) @ (S # R)"
        using None c False R(1) pr(1) by simp
      moreover have "sorted_wrt (\<lambda>A B. B \<subseteq> A) (S # R)" using R(2,3) pr(2) by auto
      moreover have "\<forall>A \<in> set (S # R). A \<subseteq> S" using R(3) pr(2) by auto
      ultimately show ?thesis by blast
    qed
  qed
qed

lemma poll_rounds:
  "\<exists>R. rounds (trace (snd (snd (PollUntilContextTimeout (poll_round en) (S, w) obs)))) = rounds (trace w) @ S # R
       \<and> sorted_wrt (\<lambda>A B. B \<subseteq> A) (S # R)"
proof -
  obtain d S' w1 where c: "poll_round en (S, w) = (d, S', w1)"
    by (cases "poll_round en (S, w)") auto
  note pr = poll_round_rounds[OF c]
  show ?thesis
  proof (cases d)
    case True
    then have "rounds (trace (snd (snd (PollUntilContextTimeout (poll_round en) (S, w) obs)))) = rounds (trace w) @ [S]"
      using c pr(1) by (simp add: PollUntilContextTimeout_def)
    then show ?thesis by (intro exI[of _ "[]"]) simp
  next
    case False
    from loop_rounds[of en S' w1 obs] obtain R where
      R: "rounds (trace (snd (snd (loopConditionUntilContext (poll_round en) (S', w1) obs)))) = rounds (trace w1) @ R"
         "sorted_wrt (\<lambda>A B. B \<subseteq> A) R" "\<forall>A \<in> set R. A \<subseteq> S'"
      by blast
    have "rounds (trace (snd (snd (PollUntilContextTimeout (poll_round en) (S, w) obs)))) = rounds (trace w) @ S # R"
      using c False R(1) pr(1) by (simp add: PollUntilContextTimeout_def)
    moreover have "sorted_wrt (\<lambda>A B. B \<subseteq> A) (S # R)" using R(2,3) pr(2) by auto
    ultimately show ?thesis by blast
  qed
qed

section \<open>C3: the set of unconfirmed group-versions only shrinks\<close>

text \<open>
  Claim C3. The poll always runs a first round, over the whole registered set. The sets
  ranged over by the rounds of one wait, in order, form a descending chain: the set of
  every round is contained in the set of each round before it, so a group-version that
  has left the set is never probed again. A round is recorded with the whole set it
  ranges over, since its loop over \<open>testGVs\<close> has no exit.
\<close>

theorem readiness_set_shrinks:
  "\<exists>R. rounds (trace (snd (waitForAPIServicesOpenAPIV3 en w services)))
          = rounds (trace w) @ registered_set services # R
      \<and> sorted_wrt (\<lambda>A B. B \<subseteq> A) (registered_set services # R)"
proof -
  let ?r = "PollUntilContextTimeout (poll_round en) (registered_set services, w) (ctx_obs en)"
  have "snd (waitForAPIServicesOpenAPIV3 en w services) = snd (snd ?r)"
    by (simp add: waitForAPIServicesOpenAPIV3_def split: prod.splits option.splits)
  then show ?thesis using poll_rounds[of en "registered_set services" w "ctx_obs en"] by simp
qed

lemma loop_timeout:
  "loopConditionUntilContext (poll_round en) (S, w) obs = (Some e, U, w')
   \<Longrightarrow> \<forall>ob \<in> set obs. ob = None
   \<Longrightarrow> S \<noteq> {}
   \<Longrightarrow> \<exists>t S1. trace w = t @ [HeadRound S1, LogUnavailable S]
   \<Longrightarrow> e = DeadlineExceeded \<and> U \<noteq> {} \<and> U \<subseteq> S
       \<and> (\<exists>t S1. trace w' = t @ [HeadRound S1, LogUnavailable U])"
proof (induction obs arbitrary: S w)
  case Nil
  then show ?case by auto
next
  case (Cons ob obs)
  have ob: "ob = None" using Cons.prems(2) by simp
  obtain d S' w1 where c: "poll_round en (S, w) = (d, S', w1)"
    by (cases "poll_round en (S, w)") auto
  note pr = poll_round_rounds[OF c]
  have nd: "\<not> d" using Cons.prems(1) ob c by (cases d) auto
  then have rest: "loopConditionUntilContext (poll_round en) (S', w1) obs = (Some e, U, w')"
    using Cons.prems(1) ob c by simp
  have "\<forall>ob \<in> set obs. ob = None" using Cons.prems(2) by simp
  moreover have "S' \<noteq> {}" using pr(3) nd by simp
  moreover have "\<exists>t S1. trace w1 = t @ [HeadRound S1, LogUnavailable S']"
    using pr(4) nd by blast
  ultimately have "e = DeadlineExceeded \<and> U \<noteq> {} \<and> U \<subseteq> S'
       \<and> (\<exists>t S1. trace w' = t @ [HeadRound S1, LogUnavailable U])"
    using Cons.IH[OF rest] by blast
  then show ?case using pr(2) by auto
qed

section \<open>C1: the error of a timed-out wait\<close>

text \<open>
  Claim C1, as amended. When the context is never cancelled and the wait ends with an
  error, the poll state then holds the set \<open>U\<close> of group-versions that failed their
  probe in the last round run; it is not empty and is part of the registered set. The
  error returned is the deadline error of the context under a fixed prefix, and names no
  group-version. The set \<open>U\<close> is reported in the log entry of that last round, which is
  the last thing the wait does.
\<close>

theorem timeout_error:
  assumes "\<forall>ob \<in> set (ctx_obs en). ob = None"
    and "PollUntilContextTimeout (poll_round en) (registered_set services, w) (ctx_obs en) = (Some e, U, w')"
  shows "waitForAPIServicesOpenAPIV3 en w services =
           (Some (Errorf ''error waiting for api services to become available'' DeadlineExceeded), w')
       \<and> U \<noteq> {} \<and> U \<subseteq> registered_set services
       \<and> (\<exists>t S. trace w' = t @ [HeadRound S, LogUnavailable U])"
proof -
  let ?S = "registered_set services"
  obtain d S' w1 where c: "poll_round en (?S, w) = (d, S', w1)"
    by (cases "poll_round en (?S, w)") auto
  note pr = poll_round_rounds[OF c]
  have nd: "\<not> d" using assms(2) c by (cases d) (auto simp: PollUntilContextTimeout_def)
  then have rest: "loopConditionUntilContext (poll_round en) (S', w1) (ctx_obs en) = (Some e, U, w')"
    using assms(2) c by (simp add: PollUntilContextTimeout_def)
  have "S' \<noteq> {}" using pr(3) nd by simp
  moreover have "\<exists>t S1. trace w1 = t @ [HeadRound S1, LogUnavailable S']"
    using pr(4) nd by blast
  ultimately have r: "e = DeadlineExceeded \<and> U \<noteq> {} \<and> U \<subseteq> S'
       \<and> (\<exists>t S1. trace w' = t @ [HeadRound S1, LogUnavailable U])"
    using loop_timeout[OF rest assms(1)] by blast
  have "waitForAPIServicesOpenAPIV3 en w services =
           (Some (Errorf ''error waiting for api services to become available'' DeadlineExceeded), w')"
    using assms(2) r by (simp add: waitForAPIServicesOpenAPIV3_def)
  then show ?thesis using r pr(2) by auto
qed

section \<open>Concrete waits\<close>

lemma never_ready_a_round1:
  "poll_round (never_ready ''a'' obs) ({(''b'', ''v1''), (''a'', ''v1'')}, \<lparr>files = Map.empty, trace = t\<rparr>)
     = (False, {(''a'', ''v1'')},
        \<lparr>files = Map.empty, trace = t @ [HeadRound {(''b'', ''v1''), (''a'', ''v1'')}, LogUnavailable {(''a'', ''v1'')}]\<rparr>)"
  by (auto simp: poll_round_def emit_def Let_def never_ready_def quiet_env_def v3_path_def split: if_splits)

lemma never_ready_a_round2:
  "poll_round (never_ready ''a'' obs) ({(''a'', ''v1'')}, \<lparr>files = Map.empty, trace = t\<rparr>)
     = (False, {(''a'', ''v1'')},
        \<lparr>files = Map.empty, trace = t @ [HeadRound {(''a'', ''v1'')}, LogUnavailable {(''a'', ''v1'')}]\<rparr>)"
  by (auto simp: poll_round_def emit_def Let_def never_ready_def quiet_env_def v3_path_def split: if_splits)

lemma never_ready_b_round1:
  "poll_round (never_ready ''b'' obs) ({(''b'', ''v1''), (''a'', ''v1'')}, \<lparr>files = Map.empty, trace = t\<rparr>)
     = (False, {(''b'', ''v1'')},
        \<lparr>files = Map.empty, trace = t @ [HeadRound {(''b'', ''v1''), (''a'', ''v1'')}, LogUnavailable {(''b'', ''v1'')}]\<rparr>)"
  by (auto simp: poll_round_def emit_def Let_def never_ready_def quiet_env_def v3_path_def split: if_splits)

lemma never_ready_obs: "ctx_obs (never_ready g obs) = obs"
  by (simp add: never_ready_def)

lemma poll_never_ready:
  "PollUntilContextTimeout (poll_round (never_ready ''a'' [None, None]))
      (registered_set [\<lparr>Group = ''a'', Version = ''v1''\<rparr>, \<lparr>Group = ''b'', Version = ''v1''\<rparr>], empty_world)
      [None, None]
   = (Some DeadlineExceeded, {(''a'', ''v1'')},
      \<lparr>files = Map.empty,
       trace = [HeadRound {(''b'', ''v1''), (''a'', ''v1'')}, LogUnavailable {(''a'', ''v1'')},
                HeadRound {(''a'', ''v1'')}, LogUnavailable {(''a'', ''v1'')},
                HeadRound {(''a'', ''v1'')}, LogUnavailable {(''a'', ''v1'')}]\<rparr>)"
  by (simp add: PollUntilContextTimeout_def registered_set_def empty_world_def
      never_ready_a_round1 never_ready_a_round2)

text \<open>
  Two registered group-versions, of which \<open>a/v1\<close> never becomes ready, and a deadline
  that passes after three rounds.
\<close>

theorem timeout_error_witness:
  "waitForAPIServicesOpenAPIV3 (never_ready ''a'' [None, None]) empty_world
      [\<lparr>Group = ''a'', Version = ''v1''\<rparr>, \<lparr>Group = ''b'', Version = ''v1''\<rparr>]
   = (Some (Errorf ''error waiting for api services to become available'' DeadlineExceeded),
      \<lparr>files = Map.empty,
       trace = [HeadRound {(''b'', ''v1''), (''a'', ''v1'')}, LogUnavailable {(''a'', ''v1'')},
                HeadRound {(''a'', ''v1'')}, LogUnavailable {(''a'', ''v1'')},
                HeadRound {(''a'', ''v1'')}, LogUnavailable {(''a'', ''v1'')}]\<rparr>)"
proof -
  have h1: "\<forall>ob \<in> set (ctx_obs (never_ready ''a'' [None, None])). ob = None"
    by (simp add: never_ready_obs)
  have h2: "PollUntilContextTimeout (poll_round (never_ready ''a'' [None, None]))
      (registered_set [\<lparr>Group = ''a'', Version = ''v1''\<rparr>, \<lparr>Group = ''b'', Version = ''v1''\<rparr>], empty_world)
      (ctx_obs (never_ready ''a'' [None, None]))
   = (Some DeadlineExceeded, {(''a'', ''v1'')},
      \<lparr>files = Map.empty,
       trace = [HeadRound {(''b'', ''v1''), (''a'', ''v1'')}, LogUnavailable {(''a'', ''v1'')},
                HeadRound {(''a'', ''v1'')}, LogUnavailable {(''a'', ''v1'')},
                HeadRound {(''a'', ''v1'')}, LogUnavailable {(''a'', ''v1'')}]\<rparr>)"
    unfolding never_ready_obs by (rule poll_never_ready)
  from timeout_error[OF h1 h2] show ?thesis by blast
qed

text \<open>
  The same two group-versions and a deadline that passes after the first round. In one
  run \<open>a/v1\<close> is the one that is not ready, in the other \<open>b/v1\<close>: the sets left over
  differ and the errors returned are the same.
\<close>

theorem timeout_error_counterexample:
  "fst (snd (PollUntilContextTimeout (poll_round (never_ready ''a'' []))
        (registered_set [\<lparr>Group = ''a'', Version = ''v1''\<rparr>, \<lparr>Group = ''b'', Version = ''v1''\<rparr>], empty_world) []))
     = {(''a'', ''v1'')}
   \<and> fst (snd (PollUntilContextTimeout (poll_round (never_ready ''b'' []))
        (registered_set [\<lparr>Group = ''a'', Version = ''v1''\<rparr>, \<lparr>Group = ''b'', Version = ''v1''\<rparr>], empty_world) []))
     = {(''b'', ''v1'')}
   \<and> fst (waitForAPIServicesOpenAPIV3 (never_ready ''a'' []) empty_world
        [\<lparr>Group = ''a'', Version = ''v1''\<rparr>, \<lparr>Group = ''b'', Version = ''v1''\<rparr>])
     = Some (Errorf ''error waiting for api services to become available'' DeadlineExceeded)
   \<and> fst (waitForAPIServicesOpenAPIV3 (never_ready ''b'' []) empty_world
        [\<lparr>Group = ''a'', Version = ''v1''\<rparr>, \<lparr>Group = ''b'', Version = ''v1''\<rparr>])
     = Some (Errorf ''error waiting for api services to become available'' DeadlineExceeded)"
  by (simp add: waitForAPIServicesOpenAPIV3_def PollUntilContextTimeout_def registered_set_def
      empty_world_def never_ready_obs never_ready_a_round1 never_ready_b_round1)

text \<open>In the run above the poll makes three rounds, over the sets \<open>{a, b}\<close>, \<open>{a}\<close>, \<open>{a}\<close>.\<close>

theorem readiness_set_shrinks_witness:
  "rounds (trace (snd (waitForAPIServicesOpenAPIV3 (never_ready ''a'' [None, None]) empty_world
      [\<lparr>Group = ''a'', Version = ''v1''\<rparr>, \<lparr>Group = ''b'', Version = ''v1''\<rparr>])))
     = [{(''b'', ''v1''), (''a'', ''v1'')}, {(''a'', ''v1'')}, {(''a'', ''v1'')}]
   \<and> (\<exists>R. rounds (trace (snd (waitForAPIServicesOpenAPIV3 (never_ready ''a'' [None, None]) empty_world
            [\<lparr>Group = ''a'', Version = ''v1''\<rparr>, \<lparr>Group = ''b'', Version = ''v1''\<rparr>])))
          = {(''b'', ''v1''), (''a'', ''v1'')} # R
        \<and> sorted_wrt (\<lambda>A B. B \<subseteq> A) ({(''b'', ''v1''), (''a'', ''v1'')} # R))"
proof -
  have "rounds (trace (snd (waitForAPIServicesOpenAPIV3 (never_ready ''a'' [None, None]) empty_world
      [\<lparr>Group = ''a'', Version = ''v1''\<rparr>, \<lparr>Group = ''b'', Version = ''v1''\<rparr>])))
     = [{(''b'', ''v1''), (''a'', ''v1'')}, {(''a'', ''v1'')}, {(''a'', ''v1'')}]"
    by (simp add: waitForAPIServicesOpenAPIV3_def never_ready_obs poll_never_ready)
  moreover have "\<exists>R. rounds (trace (snd (waitForAPIServicesOpenAPIV3 (never_ready ''a'' [None, None]) empty_world
            [\<lparr>Group = ''a'', Version = ''v1''\<rparr>, \<lparr>Group = ''b'', Version = ''v1''\<rparr>])))
          = {(''b'', ''v1''), (''a'', ''v1'')} # R
        \<and> sorted_wrt (\<lambda>A B. B \<subseteq> A) ({(''b'', ''v1''), (''a'', ''v1'')} # R)"
    using readiness_set_shrinks[of "never_ready ''a'' [None, None]" empty_world
        "[\<lparr>Group = ''a'', Version = ''v1''\<rparr>, \<lparr>Group = ''b'', Version = ''v1''\<rparr>]"]
    by (simp add: empty_world_def registered_set_def)
  ultimately show ?thesis by blast
qed

section \<open>Starting and stopping the processes\<close>

lemma lifecycle_append: "lifecycle (a @ b) = lifecycle a @ lifecycle b"
  by (simp add: lifecycle_def)

lemma getPath_lifecycle: "lifecycle (trace (snd (getPath en w path))) = lifecycle (trace w)"
  by (simp add: getPath_trace lifecycle_def)

lemma writeJSONFile_lifecycle:
  "lifecycle (trace (snd (writeJSONFile en w dir name jsonData))) = lifecycle (trace w)"
  by (simp add: writeJSONFile_def os_MkdirAll_def v3_dir_ne emit_def Let_def lifecycle_def
      split: option.splits sum.splits write_outcome.splits)

lemma extractOpenAPIv2_lifecycle:
  "lifecycle (trace (snd (extractOpenAPIv2 en w out))) = lifecycle (trace w)"
proof -
  obtain r1 w1 where g: "getPath en w ''/openapi/v2'' = (r1, w1)"
    by (cases "getPath en w ''/openapi/v2''")
  have l1: "lifecycle (trace w1) = lifecycle (trace w)"
    using getPath_lifecycle[of en w "''/openapi/v2''"] g by simp
  show ?thesis
  proof (cases r1)
    case (Inl e)
    then show ?thesis using g l1 by (simp add: extractOpenAPIv2_def)
  next
    case (Inr resp)
    obtain r2 w2 where wr: "writeJSONFile en w1 out ''swagger.json'' resp = (r2, w2)"
      by (cases "writeJSONFile en w1 out ''swagger.json'' resp")
    have "lifecycle (trace w2) = lifecycle (trace w1)"
      using writeJSONFile_lifecycle[of en w1 out "''swagger.json''" resp] wr by simp
    then show ?thesis using g Inr wr l1 by (cases r2) (simp_all add: extractOpenAPIv2_def)
  qed
qed

lemma extractOpenAPIv3_lifecycle:
  "lifecycle (trace (snd (extractOpenAPIv3 en w services out))) = lifecycle (trace w)"
proof (induction services arbitrary: w)
  case Nil
  show ?case by simp
next
  case (Cons svc services)
  let ?path = "v3_path (Group svc) (Version svc)"
  obtain r1 w1 where g: "getPath en w ?path = (r1, w1)" by (cases "getPath en w ?path")
  have l1: "lifecycle (trace w1) = lifecycle (trace w)"
    using getPath_lifecycle[of en w ?path] g by simp
  show ?case
  proof (cases r1)
    case (Inl e)
    then show ?thesis using g l1 by (simp add: Let_def)
  next
    case (Inr resp)
    obtain r2 w2 where wr: "writeJSONFile en w1 (v3_dir out) (v3_fileName svc) resp = (r2, w2)"
      by (cases "writeJSONFile en w1 (v3_dir out) (v3_fileName svc) resp")
    have l2: "lifecycle (trace w2) = lifecycle (trace w1)"
      using writeJSONFile_lifecycle[of en w1 "v3_dir out" "v3_fileName svc" resp] wr by simp
    show ?thesis
    proof (cases r2)
      case None
      then show ?thesis using g Inr wr l1 l2 Cons.IH[of w2] by (simp add: Let_def)
    next
      case (Some e)
      then show ?thesis using g Inr wr l1 l2 by (simp add: Let_def)
    qed
  qed
qed

lemma extractOpenAPI_started_lifecycle:
  "lifecycle (trace (snd (extractOpenAPI_started en w))) = lifecycle (trace w)"
proof -
  let ?w1 = "emit WaitAPIServicesReady w"
  have l1: "lifecycle (trace ?w1) = lifecycle (trace w)" by (simp add: emit_def lifecycle_def)
  obtain r2 w2 where wt: "waitForAPIServicesOpenAPIV3 en ?w1 (APIServices en) = (r2, w2)"
    by (cases "waitForAPIServicesOpenAPIV3 en ?w1 (APIServices en)")
  have l2: "lifecycle (trace w2) = lifecycle (trace w)"
    using waitFor_frame(2)[of en ?w1 "APIServices en"] wt l1 by simp
  obtain r3 w3 where v2: "extractOpenAPIv2 en w2 (opt_outputDir en) = (r3, w3)"
    by (cases "extractOpenAPIv2 en w2 (opt_outputDir en)")
  have l3: "lifecycle (trace w3) = lifecycle (trace w)"
    using extractOpenAPIv2_lifecycle[of en w2 "opt_outputDir en"] v2 l2 by simp
  obtain r4 w4 where v3: "extractOpenAPIv3 en w3 (APIServices en) (opt_outputDir en) = (r4, w4)"
    by (cases "extractOpenAPIv3 en w3 (APIServices en) (opt_outputDir en)")
  have l4: "lifecycle (trace w4) = lifecycle (trace w)"
    using extractOpenAPIv3_lifecycle[of en w3 "APIServices en" "opt_outputDir en"] v3 l3 by simp
  show ?thesis
    using l1 l2 l3 l4 wt v2 v3
    by (simp add: extractOpenAPI_started_def Let_def split: option.splits)
qed

lemma getPath_stops:
  "getPath (en\<lparr>apiserver_stop := a, stop_testenv := b\<rparr>) = getPath en"
  by (intro ext) (simp add: getPath_def)

lemma writeJSONFile_stops:
  "writeJSONFile (en\<lparr>apiserver_stop := a, stop_testenv := b\<rparr>) = writeJSONFile en"
  by (intro ext) (simp add: writeJSONFile_def os_MkdirAll_def v3_dir_ne Let_def split: option.splits sum.splits write_outcome.splits)

lemma extractOpenAPIv2_stops:
  "extractOpenAPIv2 (en\<lparr>apiserver_stop := a, stop_testenv := b\<rparr>) = extractOpenAPIv2 en"
  by (intro ext) (simp add: extractOpenAPIv2_def getPath_stops writeJSONFile_stops Let_def
      split: prod.splits sum.splits option.splits)

lemma extractOpenAPIv3_stops:
  "extractOpenAPIv3 (en\<lparr>apiserver_stop := a, stop_testenv := b\<rparr>) w services out
     = extractOpenAPIv3 en w services out"
  by (induction services arbitrary: w)
     (simp_all add: getPath_stops writeJSONFile_stops Let_def split: prod.splits sum.splits option.splits)

lemma poll_round_stops:
  "poll_round (en\<lparr>apiserver_stop := a, stop_testenv := b\<rparr>) = poll_round en"
  by (intro ext) (simp add: poll_round_def)

lemma waitFor_stops:
  "waitForAPIServicesOpenAPIV3 (en\<lparr>apiserver_stop := a, stop_testenv := b\<rparr>) = waitForAPIServicesOpenAPIV3 en"
  by (intro ext) (simp add: waitForAPIServicesOpenAPIV3_def poll_round_stops)

lemma extractOpenAPI_started_stops:
  "extractOpenAPI_started (en\<lparr>apiserver_stop := a, stop_testenv := b\<rparr>) = extractOpenAPI_started en"
  by (intro ext)
     (simp add: extractOpenAPI_started_def waitFor_stops extractOpenAPIv2_stops extractOpenAPIv3_stops
        Let_def split: option.splits prod.splits)

lemma deferred_stop_lifecycle:
  "lifecycle (trace (deferred_stop_apiserver en w)) = lifecycle (trace w) @ [StopAPIServer]"
  "lifecycle (trace (deferred_stop_testenv en w)) = lifecycle (trace w) @ [StopTestEnv]"
  by (simp_all add: deferred_stop_apiserver_def deferred_stop_testenv_def emit_def lifecycle_def
        split: option.splits)

lemma extractOpenAPI_after_start:
  assumes "start_testenv en = None" "client_new en = None" "apiserver_new en = None"
    "apiserver_start en = None"
  shows "extractOpenAPI en w =
           (fst (extractOpenAPI_started en (emit StartAPIServer (emit StartTestEnv w))),
            deferred_stop_testenv en (deferred_stop_apiserver en
              (snd (extractOpenAPI_started en (emit StartAPIServer (emit StartTestEnv w))))))"
  using assms
  by (simp add: extractOpenAPI_def extractOpenAPI_testenv_def split: prod.splits)

section \<open>C2: teardown\<close>

text \<open>
  Claim C2, as amended. In every run in which the aggregated server has been started
  successfully, whatever happens afterwards (the wait for readiness, the extraction or
  a write may fail), the two processes are stopped, each once, the aggregated server
  first and the control plane after it. The outcomes \<open>a\<close> and \<open>b\<close> of the two stops
  change neither the error the run returns nor the exit status, which is 0 exactly when
  the run returned no error.
\<close>

theorem teardown_order:
  assumes "start_testenv en = None" and "client_new en = None" and "apiserver_new en = None"
    and "apiserver_start en = None"
  shows "lifecycle (trace (snd (extractOpenAPI en w))) =
           lifecycle (trace w) @ [StartTestEnv, StartAPIServer, StopAPIServer, StopTestEnv]
       \<and> fst (extractOpenAPI (en\<lparr>apiserver_stop := a, stop_testenv := b\<rparr>) w) = fst (extractOpenAPI en w)
       \<and> fst (main (en\<lparr>apiserver_stop := a, stop_testenv := b\<rparr>) w) = fst (main en w)
       \<and> fst (main en w) = (if fst (extractOpenAPI en w) = None then 0 else 1)"
proof -
  let ?w0 = "emit StartAPIServer (emit StartTestEnv w)"
  let ?en' = "en\<lparr>apiserver_stop := a, stop_testenv := b\<rparr>"
  have l0: "lifecycle (trace ?w0) = lifecycle (trace w) @ [StartTestEnv, StartAPIServer]"
    by (simp add: emit_def lifecycle_def)
  have l: "lifecycle (trace (snd (extractOpenAPI en w))) =
           lifecycle (trace w) @ [StartTestEnv, StartAPIServer, StopAPIServer, StopTestEnv]"
    using extractOpenAPI_after_start[OF assms, of w] extractOpenAPI_started_lifecycle[of en ?w0] l0
    by (simp add: deferred_stop_lifecycle)
  have s': "start_testenv ?en' = None" "client_new ?en' = None" "apiserver_new ?en' = None"
    "apiserver_start ?en' = None" using assms by simp_all
  have r: "fst (extractOpenAPI ?en' w) = fst (extractOpenAPI en w)"
    using extractOpenAPI_after_start[OF assms, of w] extractOpenAPI_after_start[OF s', of w]
    by (simp add: extractOpenAPI_started_stops)
  have m: "fst (main en' w) = (if fst (extractOpenAPI en' w) = None then 0 else 1)" for en'
    by (simp add: main_def split: prod.splits option.splits)
  show ?thesis using l r m[of en] m[of ?en'] by simp
qed

text \<open>
  A run whose wait for readiness fails and whose stop of the aggregated server fails
  too, and a run in which only that stop fails.
\<close>

theorem teardown_order_witness:
  "lifecycle (trace (snd (extractOpenAPI
      ((quiet_env ''1'' [] ''out'')\<lparr>wait_ready := Some (External ''not ready''),
          apiserver_stop := Some (External ''kill failed'')\<rparr>) empty_world)))
     = [StartTestEnv, StartAPIServer, StopAPIServer, StopTestEnv]
   \<and> fst (extractOpenAPI
      ((quiet_env ''1'' [] ''out'')\<lparr>wait_ready := Some (External ''not ready''),
          apiserver_stop := Some (External ''kill failed'')\<rparr>) empty_world)
     = Some (Errorf ''failed to wait for api server to become ready'' (External ''not ready''))
   \<and> fst (main
      ((quiet_env ''1'' [] ''out'')\<lparr>wait_ready := Some (External ''not ready''),
          apiserver_stop := Some (External ''kill failed'')\<rparr>) empty_world) = 1
   \<and> fst (main ((quiet_env ''1'' [] ''out'')\<lparr>apiserver_stop := Some (External ''kill failed'')\<rparr>) empty_world) = 0"
proof -
  let ?en = "(quiet_env ''1'' [] ''out'')\<lparr>wait_ready := Some (External ''not ready''),
          apiserver_stop := Some (External ''kill failed'')\<rparr>"
  have h: "start_testenv ?en = None" "client_new ?en = None" "apiserver_new ?en = None"
    "apiserver_start ?en = None" by (simp_all add: quiet_env_def)
  have e: "fst (extractOpenAPI ?en empty_world)
     = Some (Errorf ''failed to wait for api server to become ready'' (External ''not ready''))"
    by (simp add: extractOpenAPI_def extractOpenAPI_testenv_def extractOpenAPI_started_def
        quiet_env_def Let_def)
  have z: "fst (main ((quiet_env ''1'' [] ''out'')\<lparr>apiserver_stop := Some (External ''kill failed'')\<rparr>) empty_world) = 0"
    by (simp add: main_def extractOpenAPI_def extractOpenAPI_testenv_def extractOpenAPI_started_def
        waitForAPIServicesOpenAPIV3_def PollUntilContextTimeout_def poll_round_def registered_set_def
        deferred_stop_apiserver_def deferred_stop_testenv_def
        extractOpenAPIv2_def getPath_def writeJSONFile_def os_MkdirAll_def v3_dir_ne Indent_1 quiet_env_def empty_world_def
        emit_def Let_def)
  from teardown_order[OF h, of empty_world None None] e z show ?thesis
    by (simp add: empty_world_def lifecycle_def)
qed

text \<open>
  The start of the aggregated server is attempted and fails: the function returns before
  the stop of the server is registered, and only the control plane is stopped.
\<close>

theorem teardown_order_counterexample:
  "lifecycle (trace (snd (extractOpenAPI
      ((quiet_env ''1'' [] ''out'')\<lparr>apiserver_start := Some (External ''no such file'')\<rparr>) empty_world)))
     = [StartTestEnv, StartAPIServer, StopTestEnv]"
  by (simp add: extractOpenAPI_def extractOpenAPI_testenv_def deferred_stop_testenv_def
      quiet_env_def empty_world_def emit_def lifecycle_def)

lemma Base_shape:
  assumes "Base name \<noteq> [Separator]"
  shows "Base name \<noteq> [] \<and> Separator \<notin> set (Base name)"
proof (cases "name = []")
  case True
  then show ?thesis by (simp add: Base_def Separator_def)
next
  case False
  define e where "e = rev (takeWhile (\<lambda>c. c \<noteq> Separator) (rev (strip_trailing name)))"
  have b: "Base name = (if e = [] then [Separator] else e)"
    using False by (simp add: Base_def Let_def e_def)
  with assms have ne: "e \<noteq> []" by auto
  have "Separator \<notin> set e"
    unfolding e_def using set_takeWhileD[of Separator "\<lambda>c. c \<noteq> Separator"] by auto
  with b ne show ?thesis by simp
qed

lemma Clean_proper:
  assumes "proper_name f"
  shows "Clean f = f"
proof -
  have f: "f \<noteq> []" "f \<noteq> ''.''" "f \<noteq> ''..''" "Separator \<notin> set f"
    using assms by (auto simp: proper_name_def)
  have r: "\<not> is_rooted f" using f(1,4) by (cases f) (auto simp: is_rooted_def)
  have "clean_elems False (split_path f) = [f]"
    using f by (simp add: split_path_no_sep clean_elems_def clean_step_def)
  then show ?thesis using r by (simp add: Clean_def render_def)
qed

section \<open>C9: the file is written inside the directory\<close>

text \<open>
  Claim C9, as amended. Whatever directories the name given to \<open>writeJSONFile\<close> goes
  through, only its base is kept. When that base names a file, that is when it is none
  of \<open>.\<close>, \<open>..\<close> and \<open>/\<close>, it contains no separator and the file written is the one
  of that name directly in the cleaned directory.
\<close>

theorem write_stays_in_directory:
  assumes "Base name \<noteq> ''.''" and "Base name \<noteq> ''..''" and "Base name \<noteq> ''/''"
    and "os_MkdirAll en (trace w) dir = None"
    and "Indent jsonData [] [CHR 0x09] = Inr pretty"
  shows "Separator \<notin> set (Base name)
       \<and> trace (snd (writeJSONFile en w dir name jsonData)) =
           trace w @ [MkdirAll dir,
             WriteFile (if Clean dir = ''.'' then Base name
                        else if Clean dir = ''/'' then ''/'' @ Base name
                        else Clean dir @ ''/'' @ Base name) pretty]"
proof -
  have ns: "Base name \<noteq> [Separator]" using assms(3) by (simp add: Separator_def)
  from Base_shape[OF ns] have sh: "Base name \<noteq> []" "Separator \<notin> set (Base name)" by auto
  then have p: "proper_name (Base name)" using assms(1,2) by (simp add: proper_name_def)
  have ne: "dir \<noteq> []" using assms(4) by (auto simp: os_MkdirAll_def)
  have j: "Join dir (Base name) =
             (if Clean dir = ''.'' then Base name
              else if Clean dir = ''/'' then ''/'' @ Base name
              else Clean dir @ ''/'' @ Base name)"
    using Clean_child[OF ne p] ne by (simp add: Join_def Separator_def)
  have "trace (snd (writeJSONFile en w dir name jsonData)) =
          trace w @ [MkdirAll dir, WriteFile (Join dir (Base name)) pretty]"
    using assms(4,5) by (rule writeJSONFile_ok_trace)
  then show ?thesis unfolding j using sh(2) by simp
qed

text \<open>A name that tries to leave the directory ends up inside it.\<close>

theorem write_stays_in_directory_witness:
  "trace (snd (writeJSONFile (quiet_env ''1'' [] ''out'') empty_world ''out'' ''../../etc/passwd'' ''1''))
     = [MkdirAll ''out'', WriteFile ''out/passwd'' ''1'']"
  using write_stays_in_directory[of "''../../etc/passwd''" "quiet_env ''1'' [] ''out''" empty_world
      "''out''" "''1''" "''1''"]
  by (simp add: Indent_1 Clean_out quiet_env_def empty_world_def Base_def strip_trailing_def Separator_def
      os_MkdirAll_def)

text \<open>
  A name that ends in \<open>..\<close>: its base is \<open>..\<close>, and joined to the directory \<open>out\<close> it
  gives the directory above \<open>out\<close>. The operating system refuses to write a directory.
\<close>

theorem write_stays_in_directory_counterexample:
  "writeJSONFile
     ((quiet_env ''1'' [] ''out'')\<lparr>os_write_file :=
        (\<lambda>t f d. if f = ''.'' then NotOpened (External ''is a directory'') else Written)\<rparr>)
     empty_world ''out'' ''a/..'' ''1''
   = (Some (Errorf ''error writing file .'' (External ''is a directory'')),
      \<lparr>files = Map.empty, trace = [MkdirAll ''out'', WriteFile ''.'' ''1'']\<rparr>)"
  by (simp add: writeJSONFile_def os_MkdirAll_def v3_dir_ne Indent_1 quiet_env_def empty_world_def emit_def Let_def path_defs)

section \<open>Indent changes only the spacing\<close>

lemmas step_fun_defs = scan_error_def scan_panic_def pushParseState_def popParseState_def
  stateEndTop_def stateEndValue_def stateBeginValue_def stateBeginValueOrEmpty_def
  stateBeginString_def stateBeginStringOrEmpty_def stateInString_def stateInStringEsc_def
  stateHex_def state0_def state1_def stateNeg_def stateDot_def stateDot0_def stateESign_def
  stateE_def stateE0_def stateLetter_def

lemma space_chars:
  "isSpace c \<Longrightarrow> c \<noteq> CHR ''{'' \<and> c \<noteq> CHR ''['' \<and> c \<noteq> CHR ''}'' \<and> c \<noteq> CHR '']''
     \<and> c \<noteq> CHR '','' \<and> c \<noteq> CHR '':'' \<and> c \<noteq> CHR ''.'' \<and> c \<noteq> CHR ''e'' \<and> c \<noteq> CHR ''E''
     \<and> \<not> isDigit c \<and> c \<noteq> CHR 0x22 \<and> c \<noteq> CHR ''-''"
  by (auto simp: isSpace_def isDigit_def)

lemma ws_stable_step:
  assumes "ws_stable s" "isSpace c"
  shows "scan_step s c = (ScanSkipSpace, s)"
proof -
  have "s\<lparr>step := step s\<rparr> = s" by simp
  then show ?thesis
    using assms
    by (cases "parseState s")
       (auto simp: ws_stable_def scan_step_def stateBeginValueOrEmpty_def stateBeginValue_def
          stateBeginStringOrEmpty_def stateBeginString_def stateEndValue_def)
qed

lemma num_end_space:
  assumes "num_end s" "parseState s \<noteq> []" "isSpace c"
  shows "scan_step s c = (ScanSkipSpace, s\<lparr>step := StateEndValue\<rparr>)"
  using assms space_chars[of c]
  by (cases "parseState s")
     (auto simp: num_end_def scan_step_def state0_def state1_def stateDot0_def stateE0_def stateEndValue_def)


lemma skip_step:
  assumes "scan_step s c = (ScanSkipSpace, s')"
  shows "isSpace c \<and> (s' = s \<or> (num_end s \<and> parseState s \<noteq> [] \<and> s' = s\<lparr>step := StateEndValue\<rparr>))"
  using assms
  by (cases "step s")
     (auto simp: scan_step_def step_fun_defs num_end_def Let_def
           split: if_splits list.splits parse_state.splits)

lemma no_error_step:
  assumes "scan_step s c = (v, s')" "step s \<noteq> StateError" "err s' = None"
  shows "v \<noteq> ScanError \<and> step s' \<noteq> StateError \<and> err s = None"
  using assms
  by (cases "step s")
     (auto simp: scan_step_def step_fun_defs Let_def
           split: if_splits list.splits parse_state.splits)


lemma ahead_step:
  assumes "num_end sB" "parseState sB \<noteq> []"
    and "scan_step (sB\<lparr>step := StateEndValue\<rparr>) c = (v, s')" and "err s' = None"
  shows "scan_step sB c = (v, s')"
  using assms
  by (cases "parseState sB")
     (auto simp: num_end_def scan_step_def state0_def state1_def stateDot0_def stateE0_def
           stateEndValue_def scan_error_def popParseState_def isDigit_def isSpace_def Let_def
           split: if_splits parse_state.splits)

lemma normal_step:
  assumes "num_end s" "parseState s \<noteq> []" "scan_step s c = (v, s')" "c = CHR ''}'' \<or> c = CHR '']''"
  shows "scan_step (s\<lparr>step := StateEndValue\<rparr>) c = (v, s')"
  using assms
  by (cases "parseState s")
     (auto simp: num_end_def scan_step_def state0_def state1_def stateDot0_def stateE0_def
           stateEndValue_def scan_error_def popParseState_def isDigit_def isSpace_def Let_def
           split: if_splits parse_state.splits)



lemma after_comma:
  assumes "scan_step s (CHR '','') = (v, s')" "err s' = None" "step s \<noteq> StateError"
    "v \<noteq> ScanContinue"
  shows "step s' = StateBeginString \<or> step s' = StateBeginValue"
  using assms
  by (cases "step s")
     (auto simp: scan_step_def step_fun_defs isSpace_def isDigit_def isDigit19_def isHex_def Let_def
           split: if_splits list.splits parse_state.splits)

lemma after_colon:
  assumes "scan_step s (CHR '':'') = (v, s')" "err s' = None" "step s \<noteq> StateError"
    "v \<noteq> ScanContinue"
  shows "step s' = StateBeginValue"
  using assms
  by (cases "step s")
     (auto simp: scan_step_def step_fun_defs isSpace_def isDigit_def isDigit19_def isHex_def Let_def
           split: if_splits list.splits parse_state.splits)

lemma code_begin_object:
  assumes "scan_step s c = (ScanBeginObject, s')"
  shows "c = CHR ''{'' \<and> step s' = StateBeginStringOrEmpty"
  using assms
  by (cases "step s")
     (auto simp: scan_step_def step_fun_defs Let_def
           split: if_splits list.splits parse_state.splits)

lemma pending_code:
  assumes "scan_step s c = (v, s')" "pending s'" "v \<noteq> ScanSkipSpace"
  shows "v = ScanBeginObject \<or> v = ScanBeginArray"
  using assms
  by (cases "step s")
     (auto simp: scan_step_def step_fun_defs pending_def Let_def
           split: if_splits list.splits parse_state.splits)

lemma open_brace_code:
  assumes "scan_step s (CHR ''{'') = (v, s')" "err s' = None" "step s \<noteq> StateError" "v \<noteq> ScanContinue"
  shows "v = ScanBeginObject"
  using assms
  by (cases "step s")
     (auto simp: scan_step_def step_fun_defs isSpace_def isDigit_def isDigit19_def isHex_def Let_def
           split: if_splits list.splits parse_state.splits)

lemma code_begin_array:
  assumes "scan_step s c = (ScanBeginArray, s')"
  shows "c = CHR ''['' \<and> step s' = StateBeginValueOrEmpty"
  using assms
  by (cases "step s")
     (auto simp: scan_step_def step_fun_defs Let_def
           split: if_splits list.splits parse_state.splits)

lemma open_bracket_code:
  assumes "scan_step s (CHR ''['') = (v, s')" "err s' = None" "step s \<noteq> StateError" "v \<noteq> ScanContinue"
  shows "v = ScanBeginArray"
  using assms
  by (cases "step s")
     (auto simp: scan_step_def step_fun_defs isSpace_def isDigit_def isDigit19_def isHex_def Let_def
           split: if_splits list.splits parse_state.splits)

lemma close_brace_code:
  assumes "scan_step s (CHR ''}'') = (v, s')" "err s' = None" "step s \<noteq> StateError" "v \<noteq> ScanContinue"
  shows "v = ScanEndObject \<and> parseState s \<noteq> []
       \<and> (step s = StateBeginStringOrEmpty \<or> step s = StateEndValue \<or> num_end s)"
  using assms
  by (cases "step s")
     (auto simp: scan_step_def step_fun_defs num_end_def isSpace_def isDigit_def isDigit19_def isHex_def Let_def
           split: if_splits list.splits parse_state.splits)

lemma close_bracket_code:
  assumes "scan_step s (CHR '']'') = (v, s')" "err s' = None" "step s \<noteq> StateError" "v \<noteq> ScanContinue"
  shows "v = ScanEndArray \<and> parseState s \<noteq> []
       \<and> (step s = StateBeginValueOrEmpty \<or> step s = StateEndValue \<or> num_end s)"
  using assms
  by (cases "step s")
     (auto simp: scan_step_def step_fun_defs num_end_def isSpace_def isDigit_def isDigit19_def isHex_def Let_def
           split: if_splits list.splits parse_state.splits)

lemma code_end:
  assumes "scan_step s c = (v, s')" "v = ScanEndObject \<or> v = ScanEndArray"
  shows "c = CHR ''}'' \<or> c = CHR '']''"
  using assms
  by (cases "step s")
     (auto simp: scan_step_def step_fun_defs Let_def
           split: if_splits list.splits parse_state.splits)

lemma step_error_state: "step s = StateError \<Longrightarrow> scan_step s c = (ScanError, s)"
  by (simp add: scan_step_def)

lemma err_persists:
  assumes "scan_step s c = (v, s')" "err s \<noteq> None"
  shows "err s' \<noteq> None"
  using assms
  by (cases "step s")
     (auto simp: scan_step_def step_fun_defs Let_def split: if_splits list.splits parse_state.splits)

lemma error_code_state:
  assumes "scan_step s c = (ScanError, s')"
  shows "step s' = StateError"
  using assms
  by (cases "step s")
     (auto simp: scan_step_def step_fun_defs Let_def
           split: if_splits list.splits parse_state.splits)

lemma end_code_space:
  assumes "scan_step s c = (ScanEnd, s')" "err s' = None"
  shows "isSpace c"
  using assms
  by (cases "step s")
     (auto simp: scan_step_def step_fun_defs Let_def
           split: if_splits list.splits parse_state.splits)

lemma indent_loop_err:
  "err s \<noteq> None \<Longrightarrow> err (fst (indent_loop prefix indent s st src)) \<noteq> None"
proof (induction src arbitrary: s st)
  case Nil
  then show ?case by simp
next
  case (Cons c cs)
  obtain v s1 where sc: "scan_step s c = (v, s1)" by (cases "scan_step s c")
  have e1: "err s1 \<noteq> None" using err_persists[OF sc Cons.prems] .
  show ?case using sc e1 Cons.IH[OF e1] by simp
qed

lemma compact_ws_stable:
  "ws_stable s \<Longrightarrow> ws_only xs \<Longrightarrow> compact_loop s d xs = (s, d)"
  by (induction xs) (simp_all add: ws_only_def ws_stable_step)

lemma compact_ws_num:
  assumes "num_end s" "parseState s \<noteq> []" "ws_only xs" "xs \<noteq> []"
  shows "compact_loop s d xs = (s\<lparr>step := StateEndValue\<rparr>, d)"
proof -
  obtain c cs where xs: "xs = c # cs" using assms(4) by (cases xs) auto
  then have c: "isSpace c" and cs: "ws_only cs" using assms(3) by (simp_all add: ws_only_def)
  have "ws_stable (s\<lparr>step := StateEndValue\<rparr>)" using assms(2) by (simp add: ws_stable_def)
  from compact_ws_stable[OF this cs] show ?thesis
    using xs num_end_space[OF assms(1,2) c] by simp
qed

lemma compact_append:
  "compact_loop s d xs = (s', d') \<Longrightarrow> step s' \<noteq> StateError
   \<Longrightarrow> compact_loop s d (xs @ ys) = compact_loop s' d' ys"
proof (induction xs arbitrary: s d)
  case Nil
  then show ?case by simp
next
  case (Cons c cs)
  obtain v s1 where sc: "scan_step s c = (v, s1)" by (cases "scan_step s c")
  show ?case
  proof (cases "v = ScanError")
    case True
    then have "s' = s1" using Cons.prems(1) sc by simp
    moreover have "step s1 = StateError" using error_code_state sc True by simp
    ultimately show ?thesis using Cons.prems(2) by simp
  next
    case False
    then show ?thesis using Cons sc by (cases "v = ScanSkipSpace \<or> v = ScanEnd") auto
  qed
qed

lemma eof_ahead:
  assumes "ahead sA sB"
  shows "scan_eof sB = scan_eof sA"
proof (cases "sA = sB")
  case True
  then show ?thesis by simp
next
  case False
  then have n: "num_end sB" and p: "parseState sB \<noteq> []" and a: "sA = sB\<lparr>step := StateEndValue\<rparr>"
    using assms by (auto simp: ahead_def)
  have sp: "isSpace CHR '' ''" by (simp add: isSpace_def)
  have "ws_stable sA" using a p by (simp add: ws_stable_def)
  then have 1: "scan_step sA CHR '' '' = (ScanSkipSpace, sA)" using sp by (rule ws_stable_step)
  have 2: "scan_step sB CHR '' '' = (ScanSkipSpace, sA)" using num_end_space[OF n p sp] a by simp
  show ?thesis using 1 2 a by (simp add: scan_eof_def)
qed

lemma pending_no_continue:
  assumes "scan_step s c = (ScanContinue, s')"
  shows "\<not> pending s"
  using assms
  by (cases "step s")
     (auto simp: scan_step_def step_fun_defs pending_def Let_def
           split: if_splits list.splits parse_state.splits)

lemma appendNewline_ws:
  assumes "ws_only prefix" "ws_only indent"
  shows "\<exists>w. appendNewline dst prefix indent depth = dst @ w \<and> ws_only w \<and> w \<noteq> []"
proof -
  have r: "ws_only (concat (replicate n indent))" for n
    using assms(2) by (induction n) (simp_all add: ws_only_def)
  have "isSpace (CHR 0x0A)" by (simp add: isSpace_def)
  then have "ws_only ([CHR 0x0A] @ prefix @ concat (replicate (nat depth) indent))"
    using assms(1) r[of "nat depth"] by (simp add: ws_only_def)
  then show ?thesis by (intro exI[of _ "[CHR 0x0A] @ prefix @ concat (replicate (nat depth) indent)"])
      (simp add: appendNewline_def)
qed

lemma compact_one:
  assumes "scan_step sB c = (v, s')" "v \<noteq> ScanSkipSpace" "v \<noteq> ScanError"
    and "ws_only w2" "w2 = [] \<or> ws_stable s'"
  shows "compact_loop sB d (c # w2) = (s', d @ (if v = ScanEnd then [] else [c]))"
proof -
  have "compact_loop s' d' w2 = (s', d')" for d'
    using assms(4,5) by (cases "w2 = []") (simp_all add: compact_ws_stable)
  then show ?thesis using assms(1,2,3) by simp
qed

lemma compact_before:
  assumes "\<And>d. compact_loop sB d w1 = (sB1, d)" "step sB1 \<noteq> StateError"
    and "scan_step sB1 c = (v, s')" "v \<noteq> ScanSkipSpace" "v \<noteq> ScanError"
    and "ws_only w2" "w2 = [] \<or> ws_stable s'"
  shows "compact_loop sB d (w1 @ c # w2) = (s', d @ (if v = ScanEnd then [] else [c]))"
  using compact_append[OF assms(1) assms(2), of d "c # w2"] compact_one[OF assms(3-7), of d]
  by simp

lemma pending_after:
  assumes "scan_step s c = (v, s')" "err s' = None" "step s \<noteq> StateError"
    "v \<noteq> ScanContinue" "v \<noteq> ScanSkipSpace"
  shows "pending s' \<longleftrightarrow> c = CHR ''{'' \<or> c = CHR ''[''"
proof
  assume "pending s'"
  from pending_code[OF assms(1) this assms(5)] show "c = CHR ''{'' \<or> c = CHR ''[''"
    using code_begin_object[of s c s'] code_begin_array[of s c s'] assms(1) by auto
next
  assume "c = CHR ''{'' \<or> c = CHR ''[''"
  then show "pending s'"
  proof
    assume c: "c = CHR ''{''"
    then have "v = ScanBeginObject" using open_brace_code[of s v s'] assms by simp
    then show ?thesis using code_begin_object[of s c s'] assms(1) by (simp add: pending_def)
  next
    assume c: "c = CHR ''[''"
    then have "v = ScanBeginArray" using open_bracket_code[of s v s'] assms by simp
    then show ?thesis using code_begin_array[of s c s'] assms(1) by (simp add: pending_def)
  qed
qed

lemma appendNewline_eq: "appendNewline dst prefix indent depth = dst @ newline_ws prefix indent depth"
  by (simp add: appendNewline_def newline_ws_def)

lemma newline_ws_only:
  assumes "ws_only prefix" "ws_only indent"
  shows "ws_only (newline_ws prefix indent depth)" and "newline_ws prefix indent depth \<noteq> []"
proof -
  have r: "ws_only (concat (replicate n indent))" for n
    using assms(2) by (induction n) (simp_all add: ws_only_def)
  have "isSpace (CHR 0x0A)" by (simp add: isSpace_def)
  then show "ws_only (newline_ws prefix indent depth)"
    using assms(1) r[of "nat depth"] by (simp add: ws_only_def newline_ws_def)
  show "newline_ws prefix indent depth \<noteq> []" by (simp add: newline_ws_def)
qed

lemma indent_byte_sim:
  assumes ws: "ws_only prefix" "ws_only indent"
    and sc: "scan_step sA c = (v, sA')" and ok: "err sA' = None" "step sA \<noteq> StateError"
    and sig: "v \<noteq> ScanSkipSpace"
    and rel: "ahead sA sB" and ni: "ni \<longleftrightarrow> pending sA"
  shows "\<exists>depth' added. indent_byte prefix indent (ni, depth, dst) v c = (pending sA', depth', dst @ added)
            \<and> (\<forall>d. compact_loop sB d added = (sA', d @ (if v = ScanEnd then [] else [c])))"
proof -
  from no_error_step[OF sc ok(2) ok(1)]
  have ne: "v \<noteq> ScanError" "step sA' \<noteq> StateError" "err sA = None" by auto
  have ah: "num_end sB \<and> parseState sB \<noteq> [] \<and> sA = sB\<lparr>step := StateEndValue\<rparr>" if "sA \<noteq> sB"
    using that rel by (auto simp: ahead_def)
  have scB: "scan_step sB c = (v, sA')"
  proof (cases "sA = sB")
    case True
    then show ?thesis using sc by simp
  next
    case False
    from ah[OF False] show ?thesis using ahead_step sc ok(1) by blast
  qed
  have stB: "step sB \<noteq> StateError"
  proof (cases "sA = sB")
    case True
    then show ?thesis using ok(2) by simp
  next
    case False
    from ah[OF False] show ?thesis by (auto simp: num_end_def)
  qed
  have nw: "ws_only (newline_ws prefix indent k)" "newline_ws prefix indent k \<noteq> []" for k
    using newline_ws_only[OF ws] by auto
  have sp: "ws_only [CHR '' '']" by (simp add: ws_only_def isSpace_def)
  have fin: "\<exists>depth' added. indent_byte prefix indent (ni, depth, dst) v c = (pending sA', depth', dst @ added)
            \<and> (\<forall>d. compact_loop sB d added = (sA', d @ (if v = ScanEnd then [] else [c])))"
    if "indent_byte prefix indent (ni, depth, dst) v c = (pending sA', dp, dst @ w1 @ c # w2)"
      and "\<And>d. compact_loop sB d w1 = (sB1, d)" and "step sB1 \<noteq> StateError"
      and "scan_step sB1 c = (v, sA')" and "ws_only w2" and "w2 = [] \<or> ws_stable sA'"
    for dp w1 w2 sB1
  proof -
    have "\<forall>d. compact_loop sB d (w1 @ c # w2) = (sA', d @ (if v = ScanEnd then [] else [c]))"
      using compact_before[OF that(2) that(3) that(4) sig ne(1) that(5) that(6)] by blast
    with that(1) show ?thesis by blast
  qed
  have empty: "compact_loop sB d [] = (sB, d)" for d by simp
  have pa: "pending sA' \<longleftrightarrow> c = CHR ''{'' \<or> c = CHR ''[''" if "v \<noteq> ScanContinue"
    using pending_after[OF sc ok(1) ok(2) that sig] .
  have comma: "ws_stable sA'" if "v \<noteq> ScanContinue" "c = CHR '',''"
    using after_comma[of sA v sA'] sc ok that by (auto simp: ws_stable_def)
  have colon: "ws_stable sA'" if "v \<noteq> ScanContinue" "c = CHR '':''"
    using after_colon[of sA v sA'] sc ok that by (auto simp: ws_stable_def)
  show ?thesis
  proof (cases "pending sA")
    case True
    have eq: "sA = sB"
    proof (rule ccontr)
      assume "sA \<noteq> sB"
      from ah[OF this] have "sA = sB\<lparr>step := StateEndValue\<rparr>" by simp
      then have "step sA = StateEndValue" by (metis scanner.select_convs(1) scanner.surjective scanner.update_convs(1))
      with True show False by (simp add: pending_def)
    qed
    have stab: "ws_stable sB" using True eq by (auto simp: pending_def ws_stable_def)
    have vnc: "v \<noteq> ScanContinue" using pending_no_continue sc True by blast
    show ?thesis
    proof (cases "v = ScanEndObject \<or> v = ScanEndArray")
      case e: True
      then have c: "c = CHR ''}'' \<or> c = CHR '']''" using code_end[OF sc] by blast
      have "indent_byte prefix indent (ni, depth, dst) v c = (pending sA', depth, dst @ [] @ c # [])"
        using ni True e c pa[OF vnc] by (auto simp: indent_byte_def)
      from fin[OF this empty stB scB] show ?thesis by (simp add: ws_only_def)
    next
      case ne': False
      have cb: "c \<noteq> CHR ''}''" using close_brace_code[of sA v sA'] sc ok vnc ne' by auto
      have ck: "c \<noteq> CHR '']''" using close_bracket_code[of sA v sA'] sc ok vnc ne' by auto
      let ?w1 = "newline_ws prefix indent (depth + 1)"
      have pre: "compact_loop sB d ?w1 = (sB, d)" for d
        using compact_ws_stable[OF stab nw(1)] .
      consider "c = CHR ''{'' \<or> c = CHR ''[''" | "c = CHR '',''" | "c = CHR '':''"
        | "c \<noteq> CHR ''{''" "c \<noteq> CHR ''[''" "c \<noteq> CHR '',''" "c \<noteq> CHR '':''" by blast
      then show ?thesis
      proof cases
        case 1
        then have "indent_byte prefix indent (ni, depth, dst) v c = (pending sA', depth + 1, dst @ ?w1 @ c # [])"
          using ni True ne' vnc pa[OF vnc] by (auto simp: indent_byte_def appendNewline_eq)
        from fin[OF this pre stB scB] show ?thesis by (simp add: ws_only_def)
      next
        case 2
        then have "indent_byte prefix indent (ni, depth, dst) v c
                     = (pending sA', depth + 1, dst @ ?w1 @ c # newline_ws prefix indent (depth + 1))"
          using ni True ne' vnc pa[OF vnc] by (auto simp: indent_byte_def appendNewline_eq)
        from fin[OF this pre stB scB nw(1)] comma[OF vnc 2] show ?thesis by simp
      next
        case 3
        then have "indent_byte prefix indent (ni, depth, dst) v c
                     = (pending sA', depth + 1, dst @ ?w1 @ c # [CHR '' ''])"
          using ni True ne' vnc pa[OF vnc] by (auto simp: indent_byte_def appendNewline_eq)
        from fin[OF this pre stB scB sp] colon[OF vnc 3] show ?thesis by simp
      next
        case 4
        then have "indent_byte prefix indent (ni, depth, dst) v c = (pending sA', depth + 1, dst @ ?w1 @ c # [])"
          using ni True ne' vnc pa[OF vnc] cb ck by (auto simp: indent_byte_def appendNewline_eq)
        from fin[OF this pre stB scB] show ?thesis by (simp add: ws_only_def)
      qed
    qed
  next
    case False
    show ?thesis
    proof (cases "v = ScanContinue")
      case True
      have "\<not> pending sA'" using pending_code[OF sc] True sig by auto
      then have "indent_byte prefix indent (ni, depth, dst) v c = (pending sA', depth, dst @ [] @ c # [])"
        using ni False True by (auto simp: indent_byte_def)
      from fin[OF this empty stB scB] show ?thesis by (simp add: ws_only_def)
    next
      case vnc: False
      consider "c = CHR ''{'' \<or> c = CHR ''[''" | "c = CHR '',''" | "c = CHR '':''"
        | "c = CHR ''}'' \<or> c = CHR '']''"
        | "c \<noteq> CHR ''{''" "c \<noteq> CHR ''[''" "c \<noteq> CHR '',''" "c \<noteq> CHR '':''" "c \<noteq> CHR ''}''" "c \<noteq> CHR '']''"
        by blast
      then show ?thesis
      proof cases
        case 1
        then have "indent_byte prefix indent (ni, depth, dst) v c = (pending sA', depth, dst @ [] @ c # [])"
          using ni False vnc pa[OF vnc] by (auto simp: indent_byte_def)
        from fin[OF this empty stB scB] show ?thesis by (simp add: ws_only_def)
      next
        case 2
        then have "indent_byte prefix indent (ni, depth, dst) v c
                     = (pending sA', depth, dst @ [] @ c # newline_ws prefix indent depth)"
          using ni False vnc pa[OF vnc] by (auto simp: indent_byte_def appendNewline_eq)
        from fin[OF this empty stB scB nw(1)] comma[OF vnc 2] show ?thesis by simp
      next
        case 3
        then have "indent_byte prefix indent (ni, depth, dst) v c
                     = (pending sA', depth, dst @ [] @ c # [CHR '' ''])"
          using ni False vnc pa[OF vnc] by (auto simp: indent_byte_def)
        from fin[OF this empty stB scB sp] colon[OF vnc 3] show ?thesis by simp
      next
        case 4
        let ?w1 = "newline_ws prefix indent (depth - 1)"
        have ib: "indent_byte prefix indent (ni, depth, dst) v c = (pending sA', depth - 1, dst @ ?w1 @ c # [])"
          using 4 ni False vnc pa[OF vnc] by (auto simp: indent_byte_def appendNewline_eq)
        have cl: "parseState sA \<noteq> [] \<and> (step sA = StateEndValue \<or> num_end sA)"
          using 4 close_brace_code[of sA v sA'] close_bracket_code[of sA v sA'] sc ok vnc False
          by (auto simp: pending_def)
        have "\<exists>sB1. (\<forall>d. compact_loop sB d ?w1 = (sB1, d)) \<and> step sB1 \<noteq> StateError
                \<and> scan_step sB1 c = (v, sA')"
        proof (cases "sA = sB")
          case eq: True
          show ?thesis
          proof (cases "num_end sB")
            case True
            have "\<forall>d. compact_loop sB d ?w1 = (sB\<lparr>step := StateEndValue\<rparr>, d)"
              using compact_ws_num[OF True _ nw(1) nw(2)] cl eq by simp
            moreover have "scan_step (sB\<lparr>step := StateEndValue\<rparr>) c = (v, sA')"
              using normal_step[OF True _ scB 4] cl eq by simp
            ultimately show ?thesis by (intro exI[of _ "sB\<lparr>step := StateEndValue\<rparr>"]) simp
          next
            case nn: False
            then have "ws_stable sB" using cl eq by (auto simp: ws_stable_def)
            then have "\<forall>d. compact_loop sB d ?w1 = (sB, d)"
              using compact_ws_stable nw(1) by blast
            then show ?thesis using stB scB by blast
          qed
        next
          case neq: False
          from ah[OF neq] have n: "num_end sB" and p: "parseState sB \<noteq> []"
            and a: "sA = sB\<lparr>step := StateEndValue\<rparr>" by auto
          have "\<forall>d. compact_loop sB d ?w1 = (sA, d)"
            using compact_ws_num[OF n p nw(1) nw(2)] a by simp
          then show ?thesis using ok(2) sc by blast
        qed
        then obtain sB1 where b1: "\<And>d. compact_loop sB d ?w1 = (sB1, d)" "step sB1 \<noteq> StateError"
          "scan_step sB1 c = (v, sA')" by blast
        from fin[OF ib b1] show ?thesis by (simp add: ws_only_def)
      next
        case 5
        then have "indent_byte prefix indent (ni, depth, dst) v c = (pending sA', depth, dst @ [] @ c # [])"
          using ni False vnc pa[OF vnc] by (auto simp: indent_byte_def)
        from fin[OF this empty stB scB] show ?thesis by (simp add: ws_only_def)
      qed
    qed
  qed
qed

lemma indent_sim:
  assumes ws: "ws_only prefix" "ws_only indent"
  shows "indent_loop prefix indent sA (ni, depth, dst) src = (sF, (niF, depthF, dstF))
     \<Longrightarrow> err sF = None \<Longrightarrow> step sA \<noteq> StateError \<Longrightarrow> ahead sA sB \<Longrightarrow> (ni \<longleftrightarrow> pending sA)
     \<Longrightarrow> \<exists>added kept sBF. dstF = dst @ added
            \<and> (\<forall>d. compact_loop sB d added = (sBF, d @ kept))
            \<and> (\<forall>d. compact_loop sA d src = (sF, d @ kept))
            \<and> ahead sF sBF"
proof (induction src arbitrary: sA sB ni depth dst)
  case Nil
  then have "dstF = dst @ []" "\<forall>d. compact_loop sB d [] = (sB, d @ [])"
    "\<forall>d. compact_loop sA d [] = (sF, d @ [])" "ahead sF sB"
    by simp_all
  then show ?case by blast
next
  case (Cons c cs)
  obtain v sA1 where sc: "scan_step sA c = (v, sA1)" by (cases "scan_step sA c")
  show ?case
  proof (cases "v = ScanError")
    case True
    then have "sF = sA1" using Cons.prems(1) sc by simp
    then have "err sA1 = None" using Cons.prems(2) by simp
    from no_error_step[OF sc Cons.prems(3) this] True show ?thesis by simp
  next
    case nerr: False
    show ?thesis
    proof (cases "v = ScanSkipSpace")
      case True
      then have loop: "indent_loop prefix indent sA1 (ni, depth, dst) cs = (sF, (niF, depthF, dstF))"
        using Cons.prems(1) sc by simp
      have e1: "err sA1 = None"
      proof (rule ccontr)
        assume "err sA1 \<noteq> None"
        from indent_loop_err[OF this, of prefix indent "(ni, depth, dst)" cs] loop Cons.prems(2)
        show False by simp
      qed
      from no_error_step[OF sc Cons.prems(3) e1] have st1: "step sA1 \<noteq> StateError" by simp
      from skip_step[OF sc[unfolded True]]
      have sk: "sA1 = sA \<or> (num_end sA \<and> parseState sA \<noteq> [] \<and> sA1 = sA\<lparr>step := StateEndValue\<rparr>)"
        by simp
      have ah1: "ahead sA1 sB"
      proof (cases "sA1 = sA")
        case True
        then show ?thesis using Cons.prems(4) by simp
      next
        case False
        with sk have n: "num_end sA" "parseState sA \<noteq> []" "sA1 = sA\<lparr>step := StateEndValue\<rparr>" by auto
        have "sA = sB"
        proof (rule ccontr)
          assume "sA \<noteq> sB"
          then have "sA = sB\<lparr>step := StateEndValue\<rparr>" using Cons.prems(4) by (auto simp: ahead_def)
          then have "step sA = StateEndValue"
            by (metis scanner.select_convs(1) scanner.surjective scanner.update_convs(1))
          with n(1) show False by (simp add: num_end_def)
        qed
        then show ?thesis using n by (simp add: ahead_def)
      qed
      have p1: "ni \<longleftrightarrow> pending sA1"
      proof (cases "sA1 = sA")
        case True
        then show ?thesis using Cons.prems(5) by simp
      next
        case False
        with sk have n: "num_end sA" "sA1 = sA\<lparr>step := StateEndValue\<rparr>" by auto
        then have "\<not> pending sA" "\<not> pending sA1" by (auto simp: num_end_def pending_def)
        then show ?thesis using Cons.prems(5) by simp
      qed
      from Cons.IH[OF loop Cons.prems(2) st1 ah1 p1] obtain added kept sBF where
        r: "dstF = dst @ added" "\<forall>d. compact_loop sB d added = (sBF, d @ kept)"
           "\<forall>d. compact_loop sA1 d cs = (sF, d @ kept)" "ahead sF sBF" by blast
      have "\<forall>d. compact_loop sA d (c # cs) = (sF, d @ kept)" using r(3) sc True by simp
      with r show ?thesis by blast
    next
      case sig: False
      obtain ni1 depth1 dst1 where ib: "indent_byte prefix indent (ni, depth, dst) v c = (ni1, depth1, dst1)"
        by (cases "indent_byte prefix indent (ni, depth, dst) v c") auto
      have loop: "indent_loop prefix indent sA1 (ni1, depth1, dst1) cs = (sF, (niF, depthF, dstF))"
        using Cons.prems(1) sc nerr sig ib by simp
      have e1: "err sA1 = None"
      proof (rule ccontr)
        assume "err sA1 \<noteq> None"
        from indent_loop_err[OF this, of prefix indent "(ni1, depth1, dst1)" cs] loop Cons.prems(2)
        show False by simp
      qed
      from no_error_step[OF sc Cons.prems(3) e1] have st1: "step sA1 \<noteq> StateError" by simp
      from indent_byte_sim[OF ws sc e1 Cons.prems(3) sig Cons.prems(4) Cons.prems(5), of depth dst]
      obtain added1 where
        b: "ni1 = pending sA1" "dst1 = dst @ added1"
           "\<forall>d. compact_loop sB d added1 = (sA1, d @ (if v = ScanEnd then [] else [c]))"
        using ib by auto
      have ah1: "ahead sA1 sA1" by (simp add: ahead_def)
      have p1: "ni1 \<longleftrightarrow> pending sA1" using b(1) by simp
      from Cons.IH[OF loop Cons.prems(2) st1 ah1 p1] obtain added2 kept2 sBF where
        r: "dstF = dst1 @ added2" "\<forall>d. compact_loop sA1 d added2 = (sBF, d @ kept2)"
           "\<forall>d. compact_loop sA1 d cs = (sF, d @ kept2)" "ahead sF sBF" by blast
      let ?k1 = "if v = ScanEnd then [] else [c]"
      have 1: "dstF = dst @ (added1 @ added2)" using r(1) b(2) by simp
      have 2: "\<forall>d. compact_loop sB d (added1 @ added2) = (sBF, d @ (?k1 @ kept2))"
      proof
        fix d
        have "compact_loop sB d added1 = (sA1, d @ ?k1)" using b(3) by blast
        from compact_append[OF this st1, of added2] show
          "compact_loop sB d (added1 @ added2) = (sBF, d @ (?k1 @ kept2))"
          using r(2) by simp
      qed
      have 3: "\<forall>d. compact_loop sA d (c # cs) = (sF, d @ (?k1 @ kept2))"
        using sc nerr sig r(3) by simp
      from 1 2 3 r(4) show ?thesis by blast
    qed
  qed
qed

lemma indent_compact:
  assumes "ws_only prefix" "ws_only indent" "Indent src prefix indent = Inr out"
  shows "Compact out = Compact src \<and> (\<exists>k. Compact src = Inr k)"
proof -
  obtain sF niF depthF dstF where
    loop: "indent_loop prefix indent newScanner (False, 0, []) src = (sF, (niF, depthF, dstF))"
    by (cases "indent_loop prefix indent newScanner (False, 0, []) src") auto
  with assms(3) have eof: "scan_eof sF = None" and out: "out = dstF"
    by (auto simp: Indent_def split: option.splits)
  have e: "err sF = None" using eof by (auto simp: scan_eof_def split: if_splits)
  have st: "step newScanner \<noteq> StateError" by (simp add: newScanner_def)
  have ah: "ahead newScanner newScanner" by (simp add: ahead_def)
  have p: "False \<longleftrightarrow> pending newScanner" by (simp add: pending_def newScanner_def)
  from indent_sim[OF assms(1,2) loop e st ah p] obtain added kept sBF where
    r: "dstF = [] @ added" "\<forall>d. compact_loop newScanner d added = (sBF, d @ kept)"
       "\<forall>d. compact_loop newScanner d src = (sF, d @ kept)" "ahead sF sBF" by blast
  have 1: "compact_loop newScanner [] out = (sBF, kept)" using r(1,2) out by simp
  have 2: "compact_loop newScanner [] src = (sF, kept)" using r(3) by simp
  have 3: "scan_eof sBF = None" using eof_ahead[OF r(4)] eof by simp
  show ?thesis using 1 2 3 eof by (simp add: Compact_def)
qed

lemma tab_ws: "ws_only []" "ws_only [CHR 0x09]"
  by (simp_all add: ws_only_def isSpace_def)

section \<open>C4: what is persisted\<close>

text \<open>
  Claim C4, as amended. Whenever \<open>writeJSONFile\<close> succeeds, the file holds the payload
  indented, and compacting the file gives the same bytes as compacting the payload
  (which succeeds): the two differ only in the space between tokens. Compacting the
  file gives back the payload itself exactly when the payload was compact already.
\<close>

theorem persisted_json_roundtrip:
  assumes "writeJSONFile en w dir name jsonData = (None, w')"
  shows "\<exists>pretty. files w' (Join dir (Base name)) = Some pretty
           \<and> Compact pretty = Compact jsonData
           \<and> (\<exists>k. Compact jsonData = Inr k)
           \<and> (Compact pretty = Inr jsonData \<longleftrightarrow> Compact jsonData = Inr jsonData)"
proof -
  from writeJSONFile_None[OF assms] obtain pretty where
    i: "Indent jsonData [] [CHR 0x09] = Inr pretty"
    and f: "files w' = (files w)(Join dir (Base name) \<mapsto> pretty)" by blast
  from indent_compact[OF tab_ws i] f show ?thesis by simp
qed

lemma Indent_list: "Indent ''[1, 2]'' [] [CHR 0x09] = Inr [CHR ''['', CHR 0x0A, CHR 0x09, CHR ''1'', CHR '','', CHR 0x0A, CHR 0x09, CHR ''2'', CHR 0x0A, CHR '']'']"
  by (simp add: Indent_def indent_byte_def appendNewline_def scan_defs)

lemma Compact_list: "Compact [CHR ''['', CHR 0x0A, CHR 0x09, CHR ''1'', CHR '','', CHR 0x0A, CHR 0x09, CHR ''2'', CHR 0x0A, CHR '']''] = Inr ''[1,2]''"
  by (simp add: Compact_def scan_defs)


lemma write_list:
  "writeJSONFile (quiet_env ''[1, 2]'' [] ''out'') empty_world ''out'' ''swagger.json'' ''[1, 2]''
     = (None,
        \<lparr>files = [''out/swagger.json'' \<mapsto>
                   [CHR ''['', CHR 0x0A, CHR 0x09, CHR ''1'', CHR '','', CHR 0x0A, CHR 0x09, CHR ''2'', CHR 0x0A, CHR '']'']],
         trace = [MkdirAll ''out'',
                  WriteFile ''out/swagger.json''
                    [CHR ''['', CHR 0x0A, CHR 0x09, CHR ''1'', CHR '','', CHR 0x0A, CHR 0x09, CHR ''2'', CHR 0x0A, CHR '']'']]\<rparr>)"
  by (simp add: writeJSONFile_def os_MkdirAll_def v3_dir_ne Indent_list quiet_env_def empty_world_def emit_def Let_def path_defs)

text \<open>A payload with a space after a comma, pretty-printed and compacted again.\<close>

theorem persisted_json_roundtrip_witness:
  "\<exists>pretty.
      files \<lparr>files = [''out/swagger.json'' \<mapsto>
                   [CHR ''['', CHR 0x0A, CHR 0x09, CHR ''1'', CHR '','', CHR 0x0A, CHR 0x09, CHR ''2'', CHR 0x0A, CHR '']'']],
         trace = [MkdirAll ''out'',
                  WriteFile ''out/swagger.json''
                    [CHR ''['', CHR 0x0A, CHR 0x09, CHR ''1'', CHR '','', CHR 0x0A, CHR 0x09, CHR ''2'', CHR 0x0A, CHR '']'']]\<rparr>
        (Join ''out'' (Base ''swagger.json'')) = Some pretty
    \<and> Compact pretty = Compact ''[1, 2]''
    \<and> (\<exists>k. Compact ''[1, 2]'' = Inr k)
    \<and> (Compact pretty = Inr ''[1, 2]'' \<longleftrightarrow> Compact ''[1, 2]'' = Inr ''[1, 2]'')"
  using persisted_json_roundtrip[OF write_list] .

text \<open>
  The same payload: what is written is the payload with its own spacing replaced, and
  compacting it gives the payload without the space, not the payload.
\<close>

theorem persisted_json_roundtrip_counterexample:
  "files (snd (writeJSONFile (quiet_env ''[1, 2]'' [] ''out'') empty_world ''out'' ''swagger.json'' ''[1, 2]''))
      ''out/swagger.json''
     = Some [CHR ''['', CHR 0x0A, CHR 0x09, CHR ''1'', CHR '','', CHR 0x0A, CHR 0x09, CHR ''2'', CHR 0x0A, CHR '']'']
   \<and> Compact [CHR ''['', CHR 0x0A, CHR 0x09, CHR ''1'', CHR '','', CHR 0x0A, CHR 0x09, CHR ''2'', CHR 0x0A, CHR '']'']
     = Inr ''[1,2]''
   \<and> ''[1,2]'' \<noteq> ''[1, 2]''"
  by (simp add: write_list Compact_list)

section \<open>Cancelling the wait\<close>

lemma loop_cancel:
  "loopConditionUntilContext condition st (replicate n None @ Some e # rest) =
     (case loopConditionUntilContext condition st (replicate n None) of
        (None, s) \<Rightarrow> (None, s)
      | (Some x, s) \<Rightarrow> (Some e, s))"
proof (induction n arbitrary: st)
  case 0
  show ?case by simp
next
  case (Suc n)
  obtain d st' where c: "condition st = (d, st')" by (cases "condition st")
  show ?case
  proof (cases d)
    case True
    then show ?thesis using c by simp
  next
    case False
    then show ?thesis using c Suc.IH[of st'] by simp
  qed
qed

lemma poll_cancel:
  "PollUntilContextTimeout condition st (replicate n None @ Some e # rest) =
     (case PollUntilContextTimeout condition st (replicate n None) of
        (None, s) \<Rightarrow> (None, s)
      | (Some x, s) \<Rightarrow> (Some e, s))"
proof -
  obtain d st' where c: "condition st = (d, st')" by (cases "condition st")
  show ?thesis
  proof (cases d)
    case True
    then show ?thesis using c by (simp add: PollUntilContextTimeout_def)
  next
    case False
    then show ?thesis using c loop_cancel[of condition st' n e rest]
      by (simp add: PollUntilContextTimeout_def)
  qed
qed

lemma loop_rounds_count:
  "length (rounds (trace (snd (snd (loopConditionUntilContext (poll_round en) (S, w) (replicate n None))))))
     \<le> length (rounds (trace w)) + n
   \<and> (fst (loopConditionUntilContext (poll_round en) (S, w) (replicate n None)) \<noteq> None
        \<longrightarrow> length (rounds (trace (snd (snd (loopConditionUntilContext (poll_round en) (S, w) (replicate n None))))))
              = length (rounds (trace w)) + n)"
proof (induction n arbitrary: S w)
  case 0
  show ?case by simp
next
  case (Suc n)
  obtain d S' w1 where c: "poll_round en (S, w) = (d, S', w1)"
    by (cases "poll_round en (S, w)") auto
  have r1: "length (rounds (trace w1)) = Suc (length (rounds (trace w)))"
    using poll_round_rounds(1)[OF c] by simp
  show ?case
  proof (cases d)
    case True
    then show ?thesis using c r1 by simp
  next
    case False
    then show ?thesis using c r1 Suc.IH[of S' w1] by simp
  qed
qed

lemma poll_rounds_count:
  "length (rounds (trace (snd (snd (PollUntilContextTimeout (poll_round en) (S, w) (replicate n None))))))
     \<le> length (rounds (trace w)) + Suc n
   \<and> (fst (PollUntilContextTimeout (poll_round en) (S, w) (replicate n None)) \<noteq> None
        \<longrightarrow> length (rounds (trace (snd (snd (PollUntilContextTimeout (poll_round en) (S, w) (replicate n None))))))
              = length (rounds (trace w)) + Suc n)"
proof -
  obtain d S' w1 where c: "poll_round en (S, w) = (d, S', w1)"
    by (cases "poll_round en (S, w)") auto
  have r1: "length (rounds (trace w1)) = Suc (length (rounds (trace w)))"
    using poll_round_rounds(1)[OF c] by simp
  show ?thesis
  proof (cases d)
    case True
    then show ?thesis using c r1 by (simp add: PollUntilContextTimeout_def)
  next
    case False
    then show ?thesis using c r1 loop_rounds_count[of en S' w1 n]
      by (simp add: PollUntilContextTimeout_def)
  qed
qed

lemma poll_round_obs: "poll_round (en\<lparr>ctx_obs := obs\<rparr>) = poll_round en"
  by (intro ext) (simp add: poll_round_def)

lemma waitFor_cancel:
  assumes "ctx_obs en = replicate n None @ Some Canceled # rest"
  shows "waitForAPIServicesOpenAPIV3 en w services =
           (case waitForAPIServicesOpenAPIV3 (en\<lparr>ctx_obs := replicate n None\<rparr>) w services of
              (None, w') \<Rightarrow> (None, w')
            | (Some x, w') \<Rightarrow>
                (Some (Errorf ''error waiting for api services to become available'' Canceled), w'))"
  using poll_cancel[of "poll_round en" "(registered_set services, w)" n Canceled rest]
  by (simp add: waitForAPIServicesOpenAPIV3_def assms poll_round_obs split: prod.splits option.splits)

lemma waitFor_rounds_count:
  "length (rounds (trace (snd (waitForAPIServicesOpenAPIV3 (en\<lparr>ctx_obs := replicate n None\<rparr>) w services))))
     \<le> length (rounds (trace w)) + Suc n
   \<and> (fst (waitForAPIServicesOpenAPIV3 (en\<lparr>ctx_obs := replicate n None\<rparr>) w services) \<noteq> None
        \<longrightarrow> length (rounds (trace (snd (waitForAPIServicesOpenAPIV3 (en\<lparr>ctx_obs := replicate n None\<rparr>) w services))))
              = length (rounds (trace w)) + Suc n)"
  using poll_rounds_count[of en "registered_set services" w n]
  by (auto simp: waitForAPIServicesOpenAPIV3_def poll_round_obs split: prod.splits option.splits)

section \<open>C6: cancellation\<close>

text \<open>
  Claim C6. The context is live at the first \<open>n\<close> wake-ups of the poll loop and is
  seen cancelled at the next one; \<open>rest\<close> is what the loop would have seen until the
  deadline. Then the wait ends after at most \<open>n + 1\<close> rounds, with success (a round
  before the cancellation was seen found every group-version ready) or with the
  cancellation error; the outcome is the same as if nothing of the timeout remained
  after the cancellation. When the poll is still waiting at that wake-up, which is
  when the same wait with the deadline in place of the cancellation fails, it returns
  the cancellation error after exactly \<open>n + 1\<close> rounds: no round is started once the
  cancellation has been seen. Time is counted in rounds; how long a round lasts is not
  part of the model.
\<close>

theorem cancelled_promptly:
  assumes "ctx_obs en = replicate n None @ Some Canceled # rest"
  shows "(fst (waitForAPIServicesOpenAPIV3 en w services) = None
          \<or> fst (waitForAPIServicesOpenAPIV3 en w services)
               = Some (Errorf ''error waiting for api services to become available'' Canceled))
       \<and> length (rounds (trace (snd (waitForAPIServicesOpenAPIV3 en w services))))
           \<le> length (rounds (trace w)) + Suc n
       \<and> waitForAPIServicesOpenAPIV3 en w services
           = waitForAPIServicesOpenAPIV3 (en\<lparr>ctx_obs := replicate n None @ [Some Canceled]\<rparr>) w services
       \<and> (fst (waitForAPIServicesOpenAPIV3 (en\<lparr>ctx_obs := replicate n None\<rparr>) w services) \<noteq> None
            \<longrightarrow> fst (waitForAPIServicesOpenAPIV3 en w services)
                  = Some (Errorf ''error waiting for api services to become available'' Canceled)
              \<and> length (rounds (trace (snd (waitForAPIServicesOpenAPIV3 en w services))))
                  = length (rounds (trace w)) + Suc n)"
proof -
  let ?en0 = "en\<lparr>ctx_obs := replicate n None\<rparr>"
  let ?en1 = "en\<lparr>ctx_obs := replicate n None @ [Some Canceled]\<rparr>"
  obtain r0 w0 where r0: "waitForAPIServicesOpenAPIV3 ?en0 w services = (r0, w0)"
    by (cases "waitForAPIServicesOpenAPIV3 ?en0 w services")
  have c: "waitForAPIServicesOpenAPIV3 en w services =
             (if r0 = None then None
              else Some (Errorf ''error waiting for api services to become available'' Canceled), w0)"
    using waitFor_cancel[OF assms, of w services] r0 by (cases r0) simp_all
  have o1: "ctx_obs ?en1 = replicate n None @ Some Canceled # []" by simp
  have e1: "?en1\<lparr>ctx_obs := replicate n None\<rparr> = ?en0" by simp
  have c1: "waitForAPIServicesOpenAPIV3 ?en1 w services =
             (if r0 = None then None
              else Some (Errorf ''error waiting for api services to become available'' Canceled), w0)"
    using waitFor_cancel[OF o1, of w services] r0 unfolding e1 by (cases r0) simp_all
  have cnt: "length (rounds (trace w0)) \<le> length (rounds (trace w)) + Suc n"
    "r0 \<noteq> None \<longrightarrow> length (rounds (trace w0)) = length (rounds (trace w)) + Suc n"
    using waitFor_rounds_count[where en=en and n=n and w=w and services=services] r0 by simp_all
  show ?thesis using c c1 cnt r0 by simp
qed


text \<open>
  The group-version \<open>a/v1\<close> never becomes ready, and the context is cancelled during the
  second round, long before the deadline.
\<close>

theorem cancelled_promptly_witness:
  "waitForAPIServicesOpenAPIV3 (never_ready ''a'' [None, Some Canceled, None, None, None]) empty_world
      [\<lparr>Group = ''a'', Version = ''v1''\<rparr>, \<lparr>Group = ''b'', Version = ''v1''\<rparr>]
     = waitForAPIServicesOpenAPIV3 (never_ready ''a'' [None, Some Canceled]) empty_world
      [\<lparr>Group = ''a'', Version = ''v1''\<rparr>, \<lparr>Group = ''b'', Version = ''v1''\<rparr>]
   \<and> fst (waitForAPIServicesOpenAPIV3 (never_ready ''a'' [None, Some Canceled, None, None, None]) empty_world
      [\<lparr>Group = ''a'', Version = ''v1''\<rparr>, \<lparr>Group = ''b'', Version = ''v1''\<rparr>])
     = Some (Errorf ''error waiting for api services to become available'' Canceled)
   \<and> length (rounds (trace (snd (waitForAPIServicesOpenAPIV3
        (never_ready ''a'' [None, Some Canceled, None, None, None]) empty_world
        [\<lparr>Group = ''a'', Version = ''v1''\<rparr>, \<lparr>Group = ''b'', Version = ''v1''\<rparr>])))) = 2"
proof -
  let ?en = "never_ready ''a'' [None, Some Canceled, None, None, None]"
  let ?svcs = "[\<lparr>Group = ''a'', Version = ''v1''\<rparr>, \<lparr>Group = ''b'', Version = ''v1''\<rparr>]"
  have h: "ctx_obs ?en = replicate (Suc 0) None @ Some Canceled # [None, None, None]"
    by (simp add: never_ready_obs)
  have e0: "?en\<lparr>ctx_obs := replicate (Suc 0) None\<rparr> = never_ready ''a'' [None]"
    by (simp add: never_ready_def)
  have e1: "?en\<lparr>ctx_obs := replicate (Suc 0) None @ [Some Canceled]\<rparr> = never_ready ''a'' [None, Some Canceled]"
    by (simp add: never_ready_def)
  have p: "fst (waitForAPIServicesOpenAPIV3 (never_ready ''a'' [None]) empty_world ?svcs) \<noteq> None"
    by (simp add: waitForAPIServicesOpenAPIV3_def PollUntilContextTimeout_def registered_set_def
        empty_world_def never_ready_obs never_ready_a_round1 never_ready_a_round2)
  note t = cancelled_promptly[OF h, of empty_world ?svcs, unfolded e0 e1]
  have a: "waitForAPIServicesOpenAPIV3 ?en empty_world ?svcs
             = waitForAPIServicesOpenAPIV3 (never_ready ''a'' [None, Some Canceled]) empty_world ?svcs"
    using t by blast
  have b: "fst (waitForAPIServicesOpenAPIV3 ?en empty_world ?svcs)
             = Some (Errorf ''error waiting for api services to become available'' Canceled)"
    using t p by blast
  have "length (rounds (trace (snd (waitForAPIServicesOpenAPIV3 ?en empty_world ?svcs))))
          = length (rounds (trace empty_world)) + Suc (Suc 0)"
    using t p by blast
  then have c: "length (rounds (trace (snd (waitForAPIServicesOpenAPIV3 ?en empty_world ?svcs)))) = 2"
    by (simp add: empty_world_def)
  show ?thesis by (intro conjI) (rule a, rule b, rule c)
qed

section \<open>The step at which the v3 extraction fails\<close>

lemma extractOpenAPIv3_append:
  "extractOpenAPIv3 en w (xs @ ys) out =
     (case extractOpenAPIv3 en w xs out of
        (None, w1) \<Rightarrow> extractOpenAPIv3 en w1 ys out
      | (Some e, w1) \<Rightarrow> (Some e, w1))"
proof (induction xs arbitrary: w)
  case Nil
  show ?case by simp
next
  case (Cons x xs)
  show ?case
    by (simp add: Let_def Cons.IH split: prod.splits sum.splits option.splits)
qed

lemma fetched_emit:
  "fetched (trace (emit e w)) = fetched (trace w) @ fetched [e]"
  by (simp add: emit_def fetched_append)

lemma deferred_stop_fetched:
  "fetched (trace (deferred_stop_apiserver en w)) = fetched (trace w)"
  "fetched (trace (deferred_stop_testenv en w)) = fetched (trace w)"
  by (simp_all add: deferred_stop_apiserver_def deferred_stop_testenv_def fetched_emit
        split: option.splits)

lemma v3_step_fails:
  assumes "(\<exists>e. http_get en (trace wk) (v3_path (Group svc) (Version svc)) = Inl e)
         \<or> (\<exists>resp e. http_get en (trace wk) (v3_path (Group svc) (Version svc)) = Inr resp
              \<and> fst (writeJSONFile en (emit (HttpGet (v3_path (Group svc) (Version svc))) wk)
                       (v3_dir out) (v3_fileName svc) resp) = Some e)"
  shows "\<exists>e w'. extractOpenAPIv3 en wk (svc # rest) out = (Some e, w')
           \<and> fetched (trace w') = fetched (trace wk) @ [v3_path (Group svc) (Version svc)]
           \<and> (\<forall>p. p \<noteq> v3_dest out svc \<longrightarrow> files w' p = files wk p)"
proof -
  let ?p = "v3_path (Group svc) (Version svc)"
  let ?w1 = "emit (HttpGet ?p) wk"
  from assms show ?thesis
  proof
    assume "\<exists>e. http_get en (trace wk) ?p = Inl e"
    then obtain e where g: "http_get en (trace wk) ?p = Inl e" by blast
    then have "extractOpenAPIv3 en wk (svc # rest) out
                 = (Some (Errorf (''failed to get OpenAPI v3 path '' @ ?p)
                            (Errorf (''failed to get path '' @ ?p) e)), ?w1)"
      by (simp add: getPath_def Let_def)
    moreover have "fetched (trace ?w1) = fetched (trace wk) @ [?p]" by (simp add: fetched_emit)
    moreover have "\<forall>p. files ?w1 p = files wk p" by (simp add: emit_def)
    ultimately show ?thesis by blast
  next
    assume "\<exists>resp e. http_get en (trace wk) ?p = Inr resp
              \<and> fst (writeJSONFile en ?w1 (v3_dir out) (v3_fileName svc) resp) = Some e"
    then obtain resp e where g: "http_get en (trace wk) ?p = Inr resp"
      and f: "fst (writeJSONFile en ?w1 (v3_dir out) (v3_fileName svc) resp) = Some e" by blast
    obtain w2 where wr: "writeJSONFile en ?w1 (v3_dir out) (v3_fileName svc) resp = (Some e, w2)"
      using f by (cases "writeJSONFile en ?w1 (v3_dir out) (v3_fileName svc) resp") auto
    from writeJSONFile_Some[OF wr] obtain t where
      t2: "trace w2 = trace ?w1 @ MkdirAll (v3_dir out) # t"
      and tw: "set t \<subseteq> range (WriteFile (Join (v3_dir out) (Base (v3_fileName svc))))"
      and f2: "\<forall>p. p \<noteq> Join (v3_dir out) (Base (v3_fileName svc)) \<longrightarrow> files w2 p = files ?w1 p"
      by blast
    have "extractOpenAPIv3 en wk (svc # rest) out = (Some (Errorf ''failed to write OpenAPI v3 file'' e), w2)"
      using g wr by (simp add: getPath_def Let_def)
    moreover have "fetched (trace w2) = fetched (trace wk) @ [?p]"
      using t2 fetched_writes[OF tw] by (simp add: fetched_append fetched_emit)
    moreover have "\<forall>p. p \<noteq> v3_dest out svc \<longrightarrow> files w2 p = files wk p"
      using f2 by (simp add: v3_dest_def emit_def)
    ultimately show ?thesis by blast
  qed
qed

lemma v3_fails_at:
  assumes k: "k < length services"
    and pre: "extractOpenAPIv3 en w (take k services) out = (None, wk)"
    and fail: "(\<exists>e. http_get en (trace wk) (v3_path (Group (services ! k)) (Version (services ! k))) = Inl e)
         \<or> (\<exists>resp e. http_get en (trace wk) (v3_path (Group (services ! k)) (Version (services ! k))) = Inr resp
              \<and> fst (writeJSONFile en (emit (HttpGet (v3_path (Group (services ! k)) (Version (services ! k)))) wk)
                       (v3_dir out) (v3_fileName (services ! k)) resp) = Some e)"
  shows "\<exists>e w'. extractOpenAPIv3 en w services out = (Some e, w')
           \<and> fetched (trace w') = fetched (trace w) @ map (\<lambda>s. v3_path (Group s) (Version s)) (take (Suc k) services)
           \<and> (\<forall>p. p \<noteq> v3_dest out (services ! k) \<longrightarrow> files w' p = files wk p)"
proof -
  have sp: "services = take k services @ (services ! k # drop (Suc k) services)"
    using k by (simp add: id_take_nth_drop[symmetric])
  from v3_step_fails[OF fail, of "drop (Suc k) services"] obtain e w' where
    s: "extractOpenAPIv3 en wk (services ! k # drop (Suc k) services) out = (Some e, w')"
    and f: "fetched (trace w') = fetched (trace wk) @ [v3_path (Group (services ! k)) (Version (services ! k))]"
    and fr: "\<forall>p. p \<noteq> v3_dest out (services ! k) \<longrightarrow> files w' p = files wk p" by blast
  have "extractOpenAPIv3 en w (take k services @ (services ! k # drop (Suc k) services)) out = (Some e, w')"
    using pre s by (simp add: extractOpenAPIv3_append)
  then have r: "extractOpenAPIv3 en w services out = (Some e, w')" using sp by simp
  from extractOpenAPIv3_None[OF pre] obtain ds where
    len: "length ds = length (take k services)"
    and tk: "trace wk = trace w @ concat (map2 (v3_ops out) (take k services) ds)" by blast
  have "fetched (trace wk) = fetched (trace w) @ map (\<lambda>s. v3_path (Group s) (Version s)) (take k services)"
    using tk fetched_v3_ops[OF len, of out] by (simp add: fetched_append)
  then have "fetched (trace w') =
               fetched (trace w) @ map (\<lambda>s. v3_path (Group s) (Version s)) (take (Suc k) services)"
    using f k by (simp add: take_Suc_conv_app_nth)
  with r fr show ?thesis by blast
qed


lemma waitFor_all_ready:
  assumes "\<forall>g v. http_head en (trace w) (v3_path g v) = None"
  shows "waitForAPIServicesOpenAPIV3 en w services =
           (None, emit LogAllAvailable (emit (HeadRound (registered_set services)) w))"
proof -
  have "Set.filter (\<lambda>(g, v). http_head en (trace w) (v3_path g v) \<noteq> None) (registered_set services) = {}"
    using assms by auto
  then show ?thesis
    by (simp add: waitForAPIServicesOpenAPIV3_def PollUntilContextTimeout_def poll_round_def Let_def)
qed

lemma main_v3_failure:
  assumes "start_testenv en = None" "client_new en = None" "apiserver_new en = None"
    "apiserver_start en = None" "wait_ready en = None" "clientset_new en = None"
    and "waitForAPIServicesOpenAPIV3 en (emit WaitAPIServicesReady (emit StartAPIServer (emit StartTestEnv w)))
           (APIServices en) = (None, w2)"
    and "extractOpenAPIv2 en w2 (opt_outputDir en) = (None, w3)"
    and "extractOpenAPIv3 en w3 (APIServices en) (opt_outputDir en) = (Some e, w4)"
  shows "extractOpenAPI en w = (Some (Errorf ''failed to extract OpenAPI v3 spec'' e),
           deferred_stop_testenv en (deferred_stop_apiserver en w4))"
    and "main en w = (1, emit (LogError ''failed to extract OpenAPI'' (Errorf ''failed to extract OpenAPI v3 spec'' e))
           (deferred_stop_testenv en (deferred_stop_apiserver en w4)))"
proof -
  have s: "extractOpenAPI_started en (emit StartAPIServer (emit StartTestEnv w)) =
          (Some (Errorf ''failed to extract OpenAPI v3 spec'' e), w4)"
    using assms(5-9) by (simp add: extractOpenAPI_started_def Let_def)
  show a: "extractOpenAPI en w = (Some (Errorf ''failed to extract OpenAPI v3 spec'' e),
           deferred_stop_testenv en (deferred_stop_apiserver en w4))"
    using extractOpenAPI_after_start[OF assms(1-4), of w] s by simp
  show "main en w = (1, emit (LogError ''failed to extract OpenAPI'' (Errorf ''failed to extract OpenAPI v3 spec'' e))
           (deferred_stop_testenv en (deferred_stop_apiserver en w4)))"
    using a by (simp add: main_def)
qed

section \<open>C7: a failure in the middle of the v3 extraction\<close>

text \<open>
  Claim C7, as amended. Take a run of \<open>main\<close> that reaches the v3 extraction: the
  processes start, the wait for readiness and the v2 extraction succeed. Let the first
  \<open>k\<close> registered services be extracted successfully, leading to the world \<open>wk\<close>, and
  let the service at index \<open>k\<close> fail, either because its document cannot be fetched or
  because the fetched document cannot be written. Then the run is reported as failed:
  \<open>extractOpenAPI\<close> returns the error of the v3 extraction, \<open>main\<close> logs it and exits
  with status 1. The path of the service at \<open>k\<close> is the last one requested, so nothing
  is requested for the services after it. No file is taken back: \<open>swagger.json\<close> and
  every file other than the destination of the service at \<open>k\<close> are at the end of the
  run as they were after the first \<open>k\<close> services. The destination of the service at
  \<open>k\<close> itself can be left truncated by a write that fails.
\<close>

theorem extraction_abort:
  assumes "start_testenv en = None" and "client_new en = None" and "apiserver_new en = None"
    and "apiserver_start en = None" and "wait_ready en = None" and "clientset_new en = None"
    and "waitForAPIServicesOpenAPIV3 en (emit WaitAPIServicesReady (emit StartAPIServer (emit StartTestEnv w)))
           (APIServices en) = (None, w2)"
    and "extractOpenAPIv2 en w2 (opt_outputDir en) = (None, w3)"
    and "k < length (APIServices en)"
    and "extractOpenAPIv3 en w3 (take k (APIServices en)) (opt_outputDir en) = (None, wk)"
    and "(\<exists>e. http_get en (trace wk) (v3_path (Group (APIServices en ! k)) (Version (APIServices en ! k))) = Inl e)
       \<or> (\<exists>resp e. http_get en (trace wk) (v3_path (Group (APIServices en ! k)) (Version (APIServices en ! k))) = Inr resp
            \<and> fst (writeJSONFile en
                     (emit (HttpGet (v3_path (Group (APIServices en ! k)) (Version (APIServices en ! k)))) wk)
                     (v3_dir (opt_outputDir en)) (v3_fileName (APIServices en ! k)) resp) = Some e)"
  shows "fst (main en w) = 1
       \<and> (\<exists>e. fst (extractOpenAPIv3 en w3 (APIServices en) (opt_outputDir en)) = Some e
             \<and> fst (extractOpenAPI en w) = Some (Errorf ''failed to extract OpenAPI v3 spec'' e)
             \<and> last (trace (snd (main en w))) =
                 LogError ''failed to extract OpenAPI'' (Errorf ''failed to extract OpenAPI v3 spec'' e))
       \<and> fetched (trace (snd (main en w))) =
           fetched (trace w3) @ map (\<lambda>s. v3_path (Group s) (Version s)) (take (Suc k) (APIServices en))
       \<and> files (snd (main en w)) (v2_dest (opt_outputDir en)) = files wk (v2_dest (opt_outputDir en))
       \<and> (\<forall>p. p \<noteq> v3_dest (opt_outputDir en) (APIServices en ! k) \<longrightarrow> files (snd (main en w)) p = files wk p)"
proof -
  from v3_fails_at[OF assms(9) assms(10) assms(11)] obtain e w4 where
    r: "extractOpenAPIv3 en w3 (APIServices en) (opt_outputDir en) = (Some e, w4)"
    and fe: "fetched (trace w4) =
               fetched (trace w3) @ map (\<lambda>s. v3_path (Group s) (Version s)) (take (Suc k) (APIServices en))"
    and fr: "\<forall>p. p \<noteq> v3_dest (opt_outputDir en) (APIServices en ! k) \<longrightarrow> files w4 p = files wk p"
    by blast
  note m = main_v3_failure[OF assms(1-8) r]
  have 1: "fst (main en w) = 1" using m(2) by simp
  have 2: "fst (extractOpenAPIv3 en w3 (APIServices en) (opt_outputDir en)) = Some e
             \<and> fst (extractOpenAPI en w) = Some (Errorf ''failed to extract OpenAPI v3 spec'' e)
             \<and> last (trace (snd (main en w))) =
                 LogError ''failed to extract OpenAPI'' (Errorf ''failed to extract OpenAPI v3 spec'' e)"
    using r m by (simp add: emit_def)
  have 3: "fetched (trace (snd (main en w))) =
           fetched (trace w3) @ map (\<lambda>s. v3_path (Group s) (Version s)) (take (Suc k) (APIServices en))"
    using fe m(2) by (simp add: fetched_emit deferred_stop_fetched)
  have fm: "files (snd (main en w)) = files w4"
    using m(2) by (simp add: emit_def deferred_stop_files)
  have 4: "files (snd (main en w)) (v2_dest (opt_outputDir en)) = files wk (v2_dest (opt_outputDir en))"
    using fr fm v2_dest_neq_v3_dest[of "opt_outputDir en" "APIServices en ! k"] by simp
  have 5: "\<forall>p. p \<noteq> v3_dest (opt_outputDir en) (APIServices en ! k) \<longrightarrow> files (snd (main en w)) p = files wk p"
    using fr fm by simp
  from 1 2 3 4 5 show ?thesis by blast
qed

text \<open>
  Three services and a disk on which the file of the second cannot be opened: the run
  exits with status 1, the third service is never requested, and the file of the first
  service is still there.
\<close>

theorem extraction_abort_witness:
  "fst (main ((quiet_env ''1'' [\<lparr>Group = ''a'', Version = ''v1''\<rparr>, \<lparr>Group = ''b'', Version = ''v1''\<rparr>, \<lparr>Group = ''c'', Version = ''v1''\<rparr>] ''out'')
            \<lparr>os_write_file := (\<lambda>t f d. if f = ''out/v3/apis__b__v1_openapi.json'' then NotOpened (External ''permission denied'') else Written)\<rparr>)
         empty_world) = 1
   \<and> fetched (trace (snd (main ((quiet_env ''1'' [\<lparr>Group = ''a'', Version = ''v1''\<rparr>, \<lparr>Group = ''b'', Version = ''v1''\<rparr>, \<lparr>Group = ''c'', Version = ''v1''\<rparr>] ''out'')
            \<lparr>os_write_file := (\<lambda>t f d. if f = ''out/v3/apis__b__v1_openapi.json'' then NotOpened (External ''permission denied'') else Written)\<rparr>)
         empty_world)))
       = [''/openapi/v2'', ''/openapi/v3/apis/a/v1'', ''/openapi/v3/apis/b/v1'']
   \<and> files (snd (main ((quiet_env ''1'' [\<lparr>Group = ''a'', Version = ''v1''\<rparr>, \<lparr>Group = ''b'', Version = ''v1''\<rparr>, \<lparr>Group = ''c'', Version = ''v1''\<rparr>] ''out'')
            \<lparr>os_write_file := (\<lambda>t f d. if f = ''out/v3/apis__b__v1_openapi.json'' then NotOpened (External ''permission denied'') else Written)\<rparr>)
         empty_world)) ''out/v3/apis__a__v1_openapi.json'' = Some ''1''"
proof -
  define en where "en = (quiet_env ''1'' [\<lparr>Group = ''a'', Version = ''v1''\<rparr>, \<lparr>Group = ''b'', Version = ''v1''\<rparr>, \<lparr>Group = ''c'', Version = ''v1''\<rparr>] ''out'')
            \<lparr>os_write_file := (\<lambda>t f d. if f = ''out/v3/apis__b__v1_openapi.json'' then NotOpened (External ''permission denied'') else Written)\<rparr>"
  define w1 where "w1 = emit WaitAPIServicesReady (emit StartAPIServer (emit StartTestEnv empty_world))"
  define w2 where "w2 = emit LogAllAvailable (emit (HeadRound (registered_set (APIServices en))) w1)"
  define w3 where "w3 = snd (extractOpenAPIv2 en w2 (opt_outputDir en))"
  define wk where "wk = snd (extractOpenAPIv3 en w3 (take 1 (APIServices en)) (opt_outputDir en))"
  have s: "start_testenv en = None" "client_new en = None" "apiserver_new en = None"
    "apiserver_start en = None" "wait_ready en = None" "clientset_new en = None"
    by (simp_all add: en_def quiet_env_def)
  have wt: "waitForAPIServicesOpenAPIV3 en w1 (APIServices en) = (None, w2)"
    unfolding w2_def by (rule waitFor_all_ready) (simp add: en_def quiet_env_def)
  have "fst (extractOpenAPIv2 en w2 (opt_outputDir en)) = None"
    by (simp add: extractOpenAPIv2_def getPath_def writeJSONFile_def os_MkdirAll_def Indent_1
          en_def quiet_env_def emit_def Let_def path_defs)
  then have v2: "extractOpenAPIv2 en w2 (opt_outputDir en) = (None, w3)"
    unfolding w3_def by (metis prod.collapse)
  have f3: "fetched (trace w3) = [''/openapi/v2'']"
    by (simp add: w3_def w2_def w1_def extractOpenAPIv2_def getPath_def writeJSONFile_def os_MkdirAll_def Indent_1
          en_def quiet_env_def emit_def empty_world_def Let_def path_defs)
  have k: "1 < length (APIServices en)" by (simp add: en_def quiet_env_def)
  have "fst (extractOpenAPIv3 en w3 (take 1 (APIServices en)) (opt_outputDir en)) = None"
    by (simp add: getPath_def writeJSONFile_def os_MkdirAll_def v3_dir_ne Indent_1
          en_def quiet_env_def emit_def Let_def v3_path_def v3_dir_def v3_fileName_def path_defs)
  then have pre: "extractOpenAPIv3 en w3 (take 1 (APIServices en)) (opt_outputDir en) = (None, wk)"
    unfolding wk_def by (metis prod.collapse)
  have fk: "files wk ''out/v3/apis__a__v1_openapi.json'' = Some ''1''"
    by (simp add: wk_def getPath_def writeJSONFile_def os_MkdirAll_def v3_dir_ne Indent_1
          en_def quiet_env_def emit_def Let_def v3_path_def v3_dir_def v3_fileName_def path_defs)
  have fail: "(\<exists>e. http_get en (trace wk) (v3_path (Group (APIServices en ! 1)) (Version (APIServices en ! 1))) = Inl e)
       \<or> (\<exists>resp e. http_get en (trace wk) (v3_path (Group (APIServices en ! 1)) (Version (APIServices en ! 1))) = Inr resp
            \<and> fst (writeJSONFile en
                     (emit (HttpGet (v3_path (Group (APIServices en ! 1)) (Version (APIServices en ! 1)))) wk)
                     (v3_dir (opt_outputDir en)) (v3_fileName (APIServices en ! 1)) resp) = Some e)"
    by (simp add: writeJSONFile_def os_MkdirAll_def v3_dir_ne Indent_1
          en_def quiet_env_def emit_def Let_def v3_path_def v3_dir_def v3_fileName_def path_defs)
  note t = extraction_abort[OF s wt[unfolded w1_def] v2 k pre fail]
  have d: "''out/v3/apis__a__v1_openapi.json'' \<noteq> v3_dest (opt_outputDir en) (APIServices en ! 1)"
    by (simp add: en_def quiet_env_def v3_dest_def v3_dir_def v3_fileName_def path_defs)
  have a: "fst (main en empty_world) = 1" using t by blast
  have "fetched (trace (snd (main en empty_world))) =
           fetched (trace w3) @ map (\<lambda>s. v3_path (Group s) (Version s)) (take (Suc 1) (APIServices en))"
    using t by blast
  then have b: "fetched (trace (snd (main en empty_world))) =
       [''/openapi/v2'', ''/openapi/v3/apis/a/v1'', ''/openapi/v3/apis/b/v1'']"
    unfolding f3 by (simp add: en_def quiet_env_def v3_path_def)
  have "files (snd (main en empty_world)) ''out/v3/apis__a__v1_openapi.json'' = files wk ''out/v3/apis__a__v1_openapi.json''"
    using t d by blast
  then have c: "files (snd (main en empty_world)) ''out/v3/apis__a__v1_openapi.json'' = Some ''1''"
    using fk by simp
  show ?thesis
    unfolding en_def[symmetric] by (intro conjI) (rule a, rule b, rule c)
qed

text \<open>
  The same group-version registered twice, and a disk that accepts the first write of a
  file and fails the second after truncating the file: the document written for the
  first descriptor is gone when the run fails at the second.
\<close>

theorem extraction_abort_counterexample:
  "fst (extractOpenAPIv3
          ((quiet_env ''1'' [] ''out'')\<lparr>os_write_file :=
              (\<lambda>t f d. if WriteFile f d \<in> set t then Partial (External ''no space left on device'') 0 else Written)\<rparr>)
          empty_world [\<lparr>Group = ''a'', Version = ''v1''\<rparr>, \<lparr>Group = ''a'', Version = ''v1''\<rparr>] ''out'')
     = Some (Errorf ''failed to write OpenAPI v3 file''
              (Errorf ''error writing file out/v3/apis__a__v1_openapi.json'' (External ''no space left on device'')))
   \<and> files (snd (extractOpenAPIv3
          ((quiet_env ''1'' [] ''out'')\<lparr>os_write_file :=
              (\<lambda>t f d. if WriteFile f d \<in> set t then Partial (External ''no space left on device'') 0 else Written)\<rparr>)
          empty_world [\<lparr>Group = ''a'', Version = ''v1''\<rparr>] ''out''))
        ''out/v3/apis__a__v1_openapi.json'' = Some ''1''
   \<and> files (snd (extractOpenAPIv3
          ((quiet_env ''1'' [] ''out'')\<lparr>os_write_file :=
              (\<lambda>t f d. if WriteFile f d \<in> set t then Partial (External ''no space left on device'') 0 else Written)\<rparr>)
          empty_world [\<lparr>Group = ''a'', Version = ''v1''\<rparr>, \<lparr>Group = ''a'', Version = ''v1''\<rparr>] ''out''))
        ''out/v3/apis__a__v1_openapi.json'' = Some ''''"
  by (simp add: getPath_def writeJSONFile_def os_MkdirAll_def v3_dir_ne Indent_1 quiet_env_def empty_world_def
      emit_def Let_def v3_path_def v3_dir_def v3_fileName_def path_defs)

section \<open>A run in which every collaborator succeeds\<close>















section \<open>C10: a group-version registered twice\<close>





end
